theory Spec2Isabelle
  imports Complex_Main
begin

section \<open>Far-field notebook of sosat-optics: data model\<close>

text \<open>
  The notebook \<^verbatim>\<open>sat_farfield\<close> works on numpy arrays of double-precision numbers.
  A one-dimensional array is a list, a two-dimensional array a list of rows of equal
  length. Numbers are real numbers and rounding is not modelled, except in the model of
  the phase line in double precision. What numpy does at a division by zero (a
  non-finite value and a warning, no exception) and at an index out of range or a
  reduction of an empty array (an exception) is written out.
\<close>

datatype pyerr = ValueError | IndexError

subsection \<open>numpy primitives used by the notebook\<close>

text \<open>\<^verbatim>\<open>np.max\<close> of a flat array: ValueError on a zero-size array.\<close>

fun np_max :: "real list \<Rightarrow> pyerr + real" where
  "np_max [] = Inl ValueError"
| "np_max (x # xs) = Inr (fold max xs x)"

text \<open>\<^verbatim>\<open>np.where(b)\<close> on a one-dimensional boolean array: the indices of the true entries.\<close>

definition np_where :: "bool list \<Rightarrow> nat list" where
  "np_where b = filter (\<lambda>i. b ! i) [0..<length b]"

text \<open>
  \<^verbatim>\<open>np.where(b)\<close> on a two-dimensional boolean array: the row indices and the column
  indices of the true entries, in row-major order.
\<close>

definition np_where2 :: "bool list list \<Rightarrow> nat list \<times> nat list" where
  "np_where2 b =
     (let ps = concat (map (\<lambda>i. map (\<lambda>j. (i, j)) (np_where (b ! i))) [0..<length b])
      in (map fst ps, map snd ps))"

text \<open>\<^verbatim>\<open>v[0]\<close> and \<^verbatim>\<open>v[-1]\<close>: IndexError on an empty array.\<close>

definition py_first :: "'a list \<Rightarrow> pyerr + 'a" where
  "py_first v = (case v of [] \<Rightarrow> Inl IndexError | x # _ \<Rightarrow> Inr x)"

definition py_last :: "'a list \<Rightarrow> pyerr + 'a" where
  "py_last v = (if v = [] then Inl IndexError else Inr (last v))"

text \<open>\<^verbatim>\<open>x[idx]\<close> with an array of indices: IndexError when an index is out of bounds.\<close>

definition np_take :: "'a list \<Rightarrow> nat list \<Rightarrow> pyerr + 'a list" where
  "np_take x idx =
     (if list_all (\<lambda>i. i < length x) idx then Inr (map (\<lambda>i. x ! i) idx) else Inl IndexError)"

text \<open>\<^verbatim>\<open>m[r, :]\<close>: a row of a two-dimensional array.\<close>

definition np_row :: "'a list list \<Rightarrow> nat \<Rightarrow> pyerr + 'a list" where
  "np_row m r = (if r < length m then Inr (m ! r) else Inl IndexError)"

text \<open>
  \<^verbatim>\<open>m[:, c]\<close>: a column of a two-dimensional array. An array without rows has no
  recorded width here and is treated as having width 0.
\<close>

definition np_col :: "'a list list \<Rightarrow> nat \<Rightarrow> pyerr + 'a list" where
  "np_col m c =
     (if m \<noteq> [] \<and> list_all (\<lambda>row. c < length row) m then Inr (map (\<lambda>row. row ! c) m)
      else Inl IndexError)"

subsection \<open>Beam-width extraction (last code cell)\<close>

text \<open>\<^verbatim>\<open>v * 60 * 180 / np.pi\<close>\<close>

definition arcmin :: "real \<Rightarrow> real" where
  "arcmin v = v * 60 * 180 / pi"

text \<open>
  \<^verbatim>\<open>(v / m) > 0.5\<close> for \<^verbatim>\<open>v = abs(a)[..]\<close> and \<^verbatim>\<open>m = np.max(abs(a))\<close>. With \<open>m = 0\<close> the
  quotient is \<open>+inf\<close> for a positive \<open>v\<close> (which exceeds) and \<open>nan\<close> or \<open>-inf\<close> otherwise
  (which do not).
\<close>

definition exceeds_half :: "real \<Rightarrow> real \<Rightarrow> bool" where
  "exceeds_half v m = (if m = 0 then 0 < v else 1 / 2 < v / m)"

text \<open>
  \<^verbatim>\<open>indx = np.where(abs(a) == np.max(abs(a)))\<close>
\<close>

definition peak_where :: "real list list \<Rightarrow> pyerr + nat list \<times> nat list" where
  "peak_where a =
     (case np_max (map abs (concat a)) of
        Inl e \<Rightarrow> Inl e
      | Inr m \<Rightarrow> Inr (np_where2 (map (map (\<lambda>v. \<bar>v\<bar> = m)) a)))"

text \<open>\<^verbatim>\<open>(indx[0][0], indx[1][0])\<close>\<close>

definition peak_index :: "real list list \<Rightarrow> pyerr + nat \<times> nat" where
  "peak_index a =
     (case peak_where a of
        Inl e \<Rightarrow> Inl e
      | Inr indx \<Rightarrow>
          (case py_first (fst indx) of
             Inl e \<Rightarrow> Inl e
           | Inr r \<Rightarrow> (case py_first (snd indx) of Inl e \<Rightarrow> Inl e | Inr c \<Rightarrow> Inr (r, c))))"

text \<open>
  One cut, as the notebook writes it twice:
  \<^verbatim>\<open>
  x = coords * 60 * 180 / np.pi
  y = abs(a)[cut] / np.max(abs(a))
  v1 = x[np.where((y > 0.5))][0]
  v2 = x[np.where((y > 0.5))][-1]
  fwhm1 = abs(v1 - v2)
  \<close>
  \<open>xc\<close> is the cut of the coordinate array, \<open>ac\<close> the cut of \<open>a\<close>, \<open>m\<close> the global maximum.
\<close>

definition cut_fwhm :: "real list \<Rightarrow> real list \<Rightarrow> real \<Rightarrow> pyerr + real" where
  "cut_fwhm xc ac m =
     (let x = map arcmin xc;
          y = map (\<lambda>v. exceeds_half \<bar>v\<bar> m) ac
      in case np_take x (np_where y) of
           Inl e \<Rightarrow> Inl e
         | Inr sel \<Rightarrow>
             (case py_first sel of
                Inl e \<Rightarrow> Inl e
              | Inr v1 \<Rightarrow>
                  (case py_last sel of Inl e \<Rightarrow> Inl e | Inr v2 \<Rightarrow> Inr \<bar>v1 - v2\<bar>)))"

text \<open>
  The whole cell, from the normalised intensity map \<open>a\<close> and the two angular coordinate
  arrays (\<^verbatim>\<open>x_out = y_ang\<close>, \<^verbatim>\<open>y_out = x_ang\<close>).
\<close>

definition fwhm :: "real list list \<Rightarrow> real list list \<Rightarrow> real list list \<Rightarrow> pyerr + real" where
  "fwhm a x_ang y_ang =
     (let x_out = y_ang; y_out = x_ang in
      case np_max (map abs (concat a)) of
        Inl e \<Rightarrow> Inl e
      | Inr m \<Rightarrow>
      (case peak_index a of
        Inl e \<Rightarrow> Inl e
      | Inr (r, c) \<Rightarrow>
      (case np_row y_out r of
        Inl e \<Rightarrow> Inl e
      | Inr xr \<Rightarrow>
      (case np_row a r of
        Inl e \<Rightarrow> Inl e
      | Inr ar \<Rightarrow>
      (case cut_fwhm xr ar m of
        Inl e \<Rightarrow> Inl e
      | Inr fwhm1 \<Rightarrow>
      (case np_col x_out c of
        Inl e \<Rightarrow> Inl e
      | Inr xc \<Rightarrow>
      (case np_col a c of
        Inl e \<Rightarrow> Inl e
      | Inr ac \<Rightarrow>
      (case cut_fwhm xc ac m of
        Inl e \<Rightarrow> Inl e
      | Inr fwhm2 \<Rightarrow> Inr ((fwhm1 + fwhm2) / 2)))))))))"

text \<open>The index pairs behind \<^const>\<open>np_where2\<close>, in scan order.\<close>

definition where_pairs :: "bool list list \<Rightarrow> (nat \<times> nat) list" where
  "where_pairs b = concat (map (\<lambda>i. map (\<lambda>j. (i, j)) (np_where (b ! i))) [0..<length b])"

subsection \<open>A three by three map with a single sample above half maximum\<close>

definition ex_map :: "real list list" where
  "ex_map = [[0, 1/10, 0], [1/10, 1, 1/10], [0, 1/10, 0]]"

definition ex_x_ang :: "real list list" where
  "ex_x_ang = [[-1, 0, 1], [-1, 0, 1], [-1, 0, 1]]"

definition ex_y_ang :: "real list list" where
  "ex_y_ang = [[-1, -1, -1], [0, 0, 0], [1, 1, 1]]"

subsection \<open>Field synthesis (first two code cells)\<close>

text \<open>
  \<^verbatim>\<open>np.mean\<close>: the sum over the number of elements. On an empty array numpy gives \<open>nan\<close>
  and a warning; the notebook then subtracts it from the same empty array, so that value
  reaches no element.
\<close>

definition np_mean :: "real list \<Rightarrow> real" where
  "np_mean xs = sum_list xs / real (length xs)"

text \<open>
  \<^verbatim>\<open>np.mod(x, m)\<close> for \<open>m \<noteq> 0\<close> without rounding: the remainder of the floored division,
  \<open>x - floor(x / m) * m\<close>. The rounding of numpy's last addition, which decides whether a
  phase can be \<open>2\<pi>\<close> itself, is in \<open>np_mod_f64\<close> below.
\<close>

definition np_mod :: "real \<Rightarrow> real \<Rightarrow> real" where
  "np_mod x m = x - of_int \<lfloor>x / m\<rfloor> * m"

text \<open>
  \<^verbatim>\<open>p_sim = np.mod(tele_geo.k * (p_sim - np.mean(p_sim)) / 1e3 / 2, 2 * np.pi)\<close>, without
  rounding: the phases that enter the complex field.
\<close>

definition p_sim :: "real \<Rightarrow> real list \<Rightarrow> real list" where
  "p_sim k P = map (\<lambda>p. np_mod (k * (p - np_mean P) / 1000 / 2) (2 * pi)) P"

text \<open>\<^verbatim>\<open>noise = 1e-6\<close>\<close>

definition noise :: real where
  "noise = 1 / 1000000"

text \<open>
  An elementwise binary operation on two one-dimensional arrays under numpy's
  broadcasting: equal lengths, or one of the two of length 1; ValueError otherwise.
\<close>

definition np_broadcast2 :: "('a \<Rightarrow> 'b \<Rightarrow> 'c) \<Rightarrow> 'a list \<Rightarrow> 'b list \<Rightarrow> pyerr + 'c list" where
  "np_broadcast2 f xs ys =
     (if length xs = length ys then Inr (map (\<lambda>(x, y). f x y) (zip xs ys))
      else if length xs = 1 then Inr (map (\<lambda>y. f (hd xs) y) ys)
      else if length ys = 1 then Inr (map (\<lambda>x. f x (hd ys)) xs)
      else Inl ValueError)"

text \<open>
  The normalised amplitude of the second cell:
  \<^verbatim>\<open>
  a_sim /= np.max(abs(a_sim))
  a_sim = a_sim + noise
  ... a_sim / np.max(a_sim)
  \<close>
  An entry is \<open>None\<close> when numpy's value is not finite. With \<open>np.max(abs(a_sim)) = 0\<close>
  every entry of \<open>a_sim\<close> is 0 and the first division gives \<open>0/0 = nan\<close> in every
  entry (a warning, no exception), which stays \<open>nan\<close> through the addition, the maximum
  and the second division. With \<open>np.max(a_sim) = 0\<close> in the second division an entry is
  \<open>inf\<close>, \<open>-inf\<close> or \<open>nan\<close>.
\<close>

definition amplitude :: "real list \<Rightarrow> pyerr + real option list" where
  "amplitude a_sim =
     (case np_max (map abs a_sim) of
        Inl e \<Rightarrow> Inl e
      | Inr m \<Rightarrow>
          if m = 0 then Inr (map (\<lambda>v. None) a_sim)
          else
            (let a1 = map (\<lambda>v. v / m) a_sim;
                 a2 = map (\<lambda>v. v + noise) a1
             in case np_max a2 of
                  Inl e \<Rightarrow> Inl e
                | Inr m2 \<Rightarrow>
                    if m2 = 0 then Inr (map (\<lambda>v. None) a2)
                    else Inr (map (\<lambda>v. Some (v / m2)) a2)))"

text \<open>
  \<^verbatim>\<open>beam_sim = (a_sim / np.max(a_sim)) * np.exp(complex(0, 1) * p_sim)\<close>
  with the phase array of the first cell as \<open>phase\<close>. A non-finite amplitude gives a
  non-finite product.
\<close>

definition beam_sim :: "real list \<Rightarrow> real list \<Rightarrow> pyerr + complex option list" where
  "beam_sim a_sim phase =
     (case amplitude a_sim of
        Inl e \<Rightarrow> Inl e
      | Inr amp \<Rightarrow>
          np_broadcast2
            (\<lambda>x ph. map_option (\<lambda>r. complex_of_real r * exp (\<i> * complex_of_real ph)) x)
            amp phase)"

text \<open>
  The Field Synthesizer: amplitudes \<open>A\<close> and pathlengths \<open>P\<close> of the ray trace and the
  wavenumber \<open>k\<close>.
\<close>

definition field_synth :: "real \<Rightarrow> real list \<Rightarrow> real list \<Rightarrow> pyerr + complex option list" where
  "field_synth k A P = beam_sim A (p_sim k P)"

subsection \<open>The contract of the Beam-Width Extractor, in the words of the specification\<close>

text \<open>
  The shape of a two-dimensional array: \<open>R\<close> rows of \<open>C\<close> entries each.
\<close>

definition grid_shape :: "'a list list \<Rightarrow> nat \<Rightarrow> nat \<Rightarrow> bool" where
  "grid_shape m R C = (length m = R \<and> list_all (\<lambda>row. length row = C) m)"

text \<open>
  The grid index of the global maximum, first occurrence in a row-major scan.
\<close>

definition spec_peak :: "real list list \<Rightarrow> (nat \<times> nat) option" where
  "spec_peak a =
     (case a of
        [] \<Rightarrow> None
      | row # _ \<Rightarrow>
          find (\<lambda>(i, j). a ! i ! j = Max (set (concat a)))
            (List.product [0..<length a] [0..<length row]))"

text \<open>Radians to arcminutes: \<open>rad \<times> (180 / \<pi>) \<times> 60\<close>.\<close>

definition spec_rad_to_arcmin :: "real \<Rightarrow> real" where
  "spec_rad_to_arcmin rad = rad * (180 / pi) * 60"

text \<open>
  One cut: normalise to its own peak, find the leftmost and the rightmost sample whose
  normalised intensity exceeds 0.5, and report the absolute difference of their angular
  coordinates in arcminutes.
\<close>

definition spec_cut_fwhm :: "real list \<Rightarrow> real list \<Rightarrow> real option" where
  "spec_cut_fwhm theta ys =
     (let s = zip theta (map (\<lambda>v. v / Max (set ys)) ys)
      in case (find (\<lambda>(t, y). 1 / 2 < y) s, find (\<lambda>(t, y). 1 / 2 < y) (rev s)) of
           (Some (t1, y1), Some (t2, y2)) \<Rightarrow>
             Some \<bar>spec_rad_to_arcmin t1 - spec_rad_to_arcmin t2\<bar>
         | _ \<Rightarrow> None)"

text \<open>
  The row and the column through the peak, each with its angular coordinates, and the
  average of the two widths.
\<close>

definition spec_fwhm :: "real list list \<Rightarrow> real list list \<Rightarrow> real list list \<Rightarrow> real option" where
  "spec_fwhm a x_ang y_ang =
     (case spec_peak a of
        None \<Rightarrow> None
      | Some (i, j) \<Rightarrow>
          (case (spec_cut_fwhm (x_ang ! i) (a ! i),
                 spec_cut_fwhm (map (\<lambda>row. row ! j) y_ang) (map (\<lambda>row. row ! j) a)) of
             (Some w1, Some w2) \<Rightarrow> Some ((w1 + w2) / 2)
           | _ \<Rightarrow> None))"

subsection \<open>A three by three map whose maximum occurs twice\<close>

definition ex_tie_map :: "real list list" where
  "ex_tie_map = [[1/10, 1, 3/5], [1, 1/5, 1/10], [1/10, 1/10, 1/10]]"

subsection \<open>Coordinate Mapper\<close>

text \<open>
  Modelled from the spec: the module \<^verbatim>\<open>opt_analyze\<close> with \<^verbatim>\<open>coords_spat_to_ang\<close> is not
  among the sources; the notebook only calls it. The specification describes the
  spatial-frequency axis of \<open>N\<close> samples at spacing \<open>\<Delta>\<close> as the frequencies
  \<open>k / (N \<Delta>)\<close> for \<open>k\<close> centred around zero.
\<close>

definition spatial_frequency_axis :: "nat \<Rightarrow> real \<Rightarrow> real list" where
  "spatial_frequency_axis N \<Delta> =
     map (\<lambda>i. real_of_int (int i - int (N div 2)) / (real N * \<Delta>)) [0..<N]"

text \<open>
  Modelled from the spec: \<open>angle = spatial_frequency_axis \<times> wavelength\<close>, for one axis
  of \<open>N\<close> samples at spacing \<open>\<Delta>\<close> and the wavelength \<open>lam\<close> in metres.
\<close>

definition coords_spat_to_ang :: "nat \<Rightarrow> real \<Rightarrow> real \<Rightarrow> real list" where
  "coords_spat_to_ang N \<Delta> lam = map (\<lambda>f. f * lam) (spatial_frequency_axis N \<Delta>)"

subsection \<open>Zero-Padder\<close>

text \<open>
  Modelled from the spec: \<^verbatim>\<open>opt_analyze.zero_pad\<close> is not among the sources; the notebook
  only calls it (\<^verbatim>\<open>zero_pad(x, y, beam_conv, pix_num)\<close>). The specification names its one
  error.
\<close>

datatype pad_error = UndersizedPadding

text \<open>
  Modelled from the spec: the spacing of an axis, the difference of its first two
  samples. An axis of fewer than two samples has no spacing; 0 stands for it.
\<close>

fun spacing :: "real list \<Rightarrow> real" where
  "spacing (x0 # x1 # xs) = x1 - x0"
| "spacing xs = 0"

text \<open>
  Modelled from the spec: the centred sub-block of \<open>m\<close> samples in \<open>N\<close> starts at
  \<open>(N - m) div 2\<close>.
\<close>

definition pad_offset :: "nat \<Rightarrow> nat \<Rightarrow> nat" where
  "pad_offset N m = (N - m) div 2"

text \<open>
  Modelled from the spec: an axis is extended by further samples before its first and
  after its last sample, at the spacing of the axis; here the \<open>n\<close> samples before the
  first. An empty axis has nothing to extend.
\<close>

definition extend_left :: "nat \<Rightarrow> real list \<Rightarrow> real list" where
  "extend_left n x =
     (case x of [] \<Rightarrow> [] | x0 # _ \<Rightarrow> map (\<lambda>j. x0 - real (n - j) * spacing x) [0..<n])"

text \<open>
  Modelled from the spec: the \<open>n\<close> further samples after the last sample of an axis.
\<close>

definition extend_right :: "nat \<Rightarrow> real list \<Rightarrow> real list" where
  "extend_right n x =
     (if x = [] then [] else map (\<lambda>j. last x + real (Suc j) * spacing x) [0..<n])"

text \<open>
  Modelled from the spec: the new axis of length \<open>N\<close>, the input axis extended on both
  sides with the same spacing.
\<close>

definition pad_axis :: "nat \<Rightarrow> real list \<Rightarrow> real list" where
  "pad_axis N x =
     (let off = pad_offset N (length x)
      in extend_left off x @ x @ extend_right (N - length x - off) x)"

text \<open>Modelled from the spec: one row of the input in the centre of a row of \<open>N\<close> zeros.\<close>

definition pad_row :: "nat \<Rightarrow> complex list \<Rightarrow> complex list" where
  "pad_row N row =
     (let off = pad_offset N (length row)
      in replicate off 0 @ row @ replicate (N - length row - off) 0)"

text \<open>
  Modelled from the spec: an \<open>N \<times> N\<close> all-zero complex array with the input field copied
  into the centred sub-block, and the two new axes; UndersizedPadding when \<open>N\<close> is
  smaller than either input dimension. The field has one row for each sample of \<open>y\<close>
  and one column for each sample of \<open>x\<close>.
\<close>

definition zero_pad ::
  "real list \<Rightarrow> real list \<Rightarrow> complex list list \<Rightarrow> nat \<Rightarrow>
     pad_error + real list \<times> real list \<times> complex list list" where
  "zero_pad x y beam N =
     (if N < length x \<or> N < length y then Inl UndersizedPadding
      else
        (let off = pad_offset N (length beam)
         in Inr (pad_axis N x, pad_axis N y,
                 replicate off (replicate N 0) @ map (pad_row N) beam @
                 replicate (N - length beam - off) (replicate N 0))))"

text \<open>
  The centre of mass of a field on its axes, with the magnitudes as weights; undefined
  for a field without weight.
\<close>

definition total_weight :: "complex list list \<Rightarrow> real" where
  "total_weight f = sum_list (map (\<lambda>row. sum_list (map cmod row)) f)"

definition moment_x :: "real list \<Rightarrow> complex list list \<Rightarrow> real" where
  "moment_x x f =
     sum_list (map (\<lambda>row. sum_list (map (\<lambda>(xj, v). xj * cmod v) (zip x row))) f)"

definition moment_y :: "real list \<Rightarrow> complex list list \<Rightarrow> real" where
  "moment_y y f = sum_list (map (\<lambda>(yi, row). yi * sum_list (map cmod row)) (zip y f))"

definition centre_of_mass ::
  "real list \<Rightarrow> real list \<Rightarrow> complex list list \<Rightarrow> (real \<times> real) option" where
  "centre_of_mass x y f =
     (if total_weight f = 0 then None
      else Some (moment_x x f / total_weight f, moment_y y f / total_weight f))"

text \<open>An axis whose consecutive samples all differ by its spacing.\<close>

definition uniform_axis :: "real list \<Rightarrow> bool" where
  "uniform_axis x = list_all (\<lambda>j. x ! Suc j - x ! j = spacing x) [0..<length x - 1]"

subsection \<open>The peak lookup on a map that may hold NaN\<close>

text \<open>
  \<^verbatim>\<open>a = abs(beam_fft) ** 2 / np.max(abs(beam_fft) ** 2)\<close>, the first line of the last
  cell. An entry of the map is a real number, or \<open>None\<close> for \<open>nan\<close>: when the maximum is 0
  every entry of the transform is 0 and every quotient is \<open>0/0 = nan\<close> (a warning, no
  exception).
\<close>

definition intensity_map :: "complex list list \<Rightarrow> pyerr + real option list list" where
  "intensity_map beam_fft =
     (case np_max (map (\<lambda>z. (cmod z)\<^sup>2) (concat beam_fft)) of
        Inl e \<Rightarrow> Inl e
      | Inr m \<Rightarrow>
          Inr (map (map (\<lambda>z. if m = 0 then None else Some ((cmod z)\<^sup>2 / m))) beam_fft))"

text \<open>
  \<^verbatim>\<open>np.max\<close> of a flat array that may hold \<open>nan\<close>: ValueError on a zero-size array, \<open>nan\<close>
  as soon as one entry is \<open>nan\<close>.
\<close>

definition np_max_nan :: "real option list \<Rightarrow> pyerr + real option" where
  "np_max_nan xs =
     (case those xs of
        None \<Rightarrow> Inr None
      | Some vs \<Rightarrow> (case np_max vs of Inl e \<Rightarrow> Inl e | Inr m \<Rightarrow> Inr (Some m)))"

text \<open>\<^verbatim>\<open>==\<close> on floating-point numbers: \<open>nan\<close> equals nothing, itself included.\<close>

definition np_eq_nan :: "real option \<Rightarrow> real option \<Rightarrow> bool" where
  "np_eq_nan u v = (case (u, v) of (Some x, Some y) \<Rightarrow> x = y | _ \<Rightarrow> False)"

text \<open>
  \<^verbatim>\<open>indx = np.where(abs(a) == np.max(abs(a)))\<close> and \<^verbatim>\<open>(indx[0][0], indx[1][0])\<close> on such a
  map; \<open>abs\<close> of \<open>nan\<close> is \<open>nan\<close>.
\<close>

definition peak_where_nan :: "real option list list \<Rightarrow> pyerr + nat list \<times> nat list" where
  "peak_where_nan a =
     (case np_max_nan (map (map_option abs) (concat a)) of
        Inl e \<Rightarrow> Inl e
      | Inr m \<Rightarrow> Inr (np_where2 (map (map (\<lambda>v. np_eq_nan (map_option abs v) m)) a)))"

definition peak_index_nan :: "real option list list \<Rightarrow> pyerr + nat \<times> nat" where
  "peak_index_nan a =
     (case peak_where_nan a of
        Inl e \<Rightarrow> Inl e
      | Inr indx \<Rightarrow>
          (case py_first (fst indx) of
             Inl e \<Rightarrow> Inl e
           | Inr r \<Rightarrow> (case py_first (snd indx) of Inl e \<Rightarrow> Inl e | Inr c \<Rightarrow> Inr (r, c))))"

subsection \<open>The phase line in double precision\<close>

text \<open>
  The arrays of the notebook hold IEEE 754 double-precision numbers, and every
  arithmetic operation of numpy on them returns the exact result rounded to the nearest
  double, ties to even. For the phase interval the rounding is decisive, so the phase
  line is modelled a second time with it. A finite double is a real number; \<open>None\<close>
  stands for a value that is not finite (\<open>inf\<close>, \<open>-inf\<close> or \<open>nan\<close>).
\<close>

text \<open>Rounding to the nearest integer, ties to the even one.\<close>

definition round_half_even :: "real \<Rightarrow> int" where
  "round_half_even y =
     (let n = \<lfloor>y\<rfloor>; d = y - of_int n
      in if d < 1 / 2 then n else if 1 / 2 < d then n + 1 else if even n then n else n + 1)"

text \<open>
  The spacing of the doubles around a nonzero \<open>x\<close> with \<open>2\<^sup>e \<le> |x| < 2\<^sup>e\<^sup>+\<^sup>1\<close> is
  \<open>2\<^sup>e\<^sup>-\<^sup>5\<^sup>2\<close> (53 significant bits), and \<open>2\<^sup>-\<^sup>1\<^sup>0\<^sup>7\<^sup>4\<close> in the subnormal range.
\<close>

definition f64_exponent :: "real \<Rightarrow> int" where
  "f64_exponent x = \<lfloor>log 2 \<bar>x\<bar>\<rfloor>"

definition f64_quantum :: "real \<Rightarrow> real" where
  "f64_quantum x = 2 powi (max (f64_exponent x - 52) (- 1074))"

text \<open>The nearest double of a real number, before the overflow check.\<close>

definition rnd64 :: "real \<Rightarrow> real" where
  "rnd64 x =
     (if x = 0 then 0 else of_int (round_half_even (x / f64_quantum x)) * f64_quantum x)"

text \<open>The largest finite double, \<open>(2\<^sup>5\<^sup>3 - 1) 2\<^sup>9\<^sup>7\<^sup>1\<close>.\<close>

definition f64_max :: real where
  "f64_max = (2 ^ 53 - 1) * 2 ^ 971"

text \<open>
  The double returned by an operation whose exact result is \<open>x\<close>: the nearest double, or
  an infinity when that exceeds the largest finite double.
\<close>

definition fl :: "real \<Rightarrow> real option" where
  "fl x = (if \<bar>rnd64 x\<bar> \<le> f64_max then Some (rnd64 x) else None)"

text \<open>
  \<^verbatim>\<open>+\<close>, \<^verbatim>\<open>-\<close> and \<^verbatim>\<open>*\<close> on doubles: an operand that is not finite gives a result that is
  not finite.
\<close>

definition fl_add :: "real option \<Rightarrow> real option \<Rightarrow> real option" where
  "fl_add a b = (case (a, b) of (Some x, Some y) \<Rightarrow> fl (x + y) | _ \<Rightarrow> None)"

definition fl_sub :: "real option \<Rightarrow> real option \<Rightarrow> real option" where
  "fl_sub a b = (case (a, b) of (Some x, Some y) \<Rightarrow> fl (x - y) | _ \<Rightarrow> None)"

definition fl_mul :: "real option \<Rightarrow> real option \<Rightarrow> real option" where
  "fl_mul a b = (case (a, b) of (Some x, Some y) \<Rightarrow> fl (x * y) | _ \<Rightarrow> None)"

text \<open>
  \<^verbatim>\<open>/\<close> by a finite constant \<open>c\<close> (the notebook divides by \<open>1e3\<close>, by 2 and, in the mean,
  by the length): a dividend that is not finite, or \<open>c = 0\<close>, gives a result that is not
  finite.
\<close>

definition fl_div :: "real option \<Rightarrow> real \<Rightarrow> real option" where
  "fl_div a c = (case a of None \<Rightarrow> None | Some x \<Rightarrow> if c = 0 then None else fl (x / c))"

text \<open>
  \<^verbatim>\<open>np.mean\<close> on doubles: the sum, here added from left to right, over the length.
  numpy adds a long array in blocks, another order of the same rounded additions.
\<close>

definition np_mean_f64 :: "real list \<Rightarrow> real option" where
  "np_mean_f64 xs = fl_div (fold (\<lambda>x acc. fl_add acc (Some x)) xs (Some 0)) (real (length xs))"

text \<open>\<^verbatim>\<open>np.pi\<close>, the double nearest to \<open>\<pi>\<close>, and \<^verbatim>\<open>2 * np.pi\<close>, which is exact.\<close>

definition np_pi :: real where
  "np_pi = 884279719003555 / 2 ^ 48"

definition two_pi_f64 :: real where
  "two_pi_f64 = 2 * np_pi"

text \<open>\<^verbatim>\<open>tele_geo.k * (p_sim - np.mean(p_sim)) / 1e3 / 2\<close>\<close>

definition phase_arg :: "real \<Rightarrow> real list \<Rightarrow> real option list" where
  "phase_arg k P =
     map (\<lambda>p. fl_div (fl_div (fl_mul (Some k) (fl_sub (Some p) (np_mean_f64 P))) 1000) 2) P"

text \<open>Rounding towards zero.\<close>

definition trunc :: "real \<Rightarrow> int" where
  "trunc y = (if 0 \<le> y then \<lfloor>y\<rfloor> else \<lceil>y\<rceil>)"

text \<open>
  \<^verbatim>\<open>np.mod(a, b)\<close> on doubles. numpy takes the remainder \<open>r\<close> of the C function \<open>fmod\<close>,
  which is exact and has the sign of \<open>a\<close>, and, when \<open>r\<close> is not zero and its sign differs
  from that of \<open>b\<close>, adds \<open>b\<close> to it: a rounded addition. An \<open>a\<close> that is not finite, or
  \<open>b = 0\<close>, gives \<open>nan\<close>.
\<close>

definition np_mod_f64 :: "real option \<Rightarrow> real \<Rightarrow> real option" where
  "np_mod_f64 a b =
     (case a of
        None \<Rightarrow> None
      | Some x \<Rightarrow>
          if b = 0 then None
          else
            (let r = x - of_int (trunc (x / b)) * b
             in if r \<noteq> 0 then (if (b < 0) \<noteq> (r < 0) then fl (r + b) else Some r)
                else Some 0))"

text \<open>
  \<^verbatim>\<open>p_sim = np.mod(tele_geo.k * (p_sim - np.mean(p_sim)) / 1e3 / 2, 2 * np.pi)\<close>
\<close>

definition p_sim_f64 :: "real \<Rightarrow> real list \<Rightarrow> real option list" where
  "p_sim_f64 k P = map (\<lambda>a. np_mod_f64 a two_pi_f64) (phase_arg k P)"

section \<open>Properties\<close>

subsection \<open>Auxiliary facts on the numpy primitives\<close>

lemma fold_max_Max: "fold max xs (x::real) = Max (set (x # xs))"
proof (induction xs arbitrary: x)
  case Nil
  show ?case by simp
next
  case (Cons y ys)
  have "fold max (y # ys) x = Max (set (max y x # ys))"
    using Cons.IH [of "max y x"] by simp
  also have "\<dots> = Max (set (x # y # ys))"
    by (cases "ys = []") (simp_all add: max.commute max.left_commute)
  finally show ?case .
qed

lemma np_max_Inr:
  assumes "xs \<noteq> []"
  shows "np_max xs = Inr (Max (set xs))"
  using assms by (cases xs) (simp_all only: np_max.simps fold_max_Max, simp)

lemma np_where_set: "set (np_where b) = {i. i < length b \<and> b ! i}"
  by (auto simp: np_where_def)

lemma map_nth_np_where: "map (\<lambda>i. b ! i) (np_where b) = filter id b"
proof -
  have "filter id (map (\<lambda>i. b ! i) [0..<length b]) = map (\<lambda>i. b ! i) (np_where b)"
    by (simp add: np_where_def filter_map comp_def)
  then show ?thesis by (simp add: map_nth)
qed

lemma length_np_where: "length (np_where b) = length (filter id b)"
  using arg_cong [OF map_nth_np_where, of length b] by simp

lemma set_where_pairs:
  "set (where_pairs b) = {(i, j). i < length b \<and> j < length (b ! i) \<and> b ! i ! j}"
  by (auto simp: where_pairs_def np_where_set)

lemma np_where2_pairs: "np_where2 b = (map fst (where_pairs b), map snd (where_pairs b))"
  by (simp add: np_where2_def where_pairs_def Let_def)

lemma Max_abs_attained:
  assumes "concat a \<noteq> []"
  shows "\<exists>i j. i < length a \<and> j < length (a ! i) \<and> \<bar>a ! i ! j\<bar> = Max (set (map abs (concat a)))"
proof -
  have "Max (set (map abs (concat a))) \<in> set (map abs (concat a))"
    using assms by (intro Max_in) simp_all
  then obtain v where v: "v \<in> set (concat a)" "\<bar>v\<bar> = Max (set (map abs (concat a)))"
    unfolding set_map by (metis imageE)
  from v(1) obtain row where row: "row \<in> set a" "v \<in> set row"
    unfolding set_concat by blast
  then obtain i j where "i < length a" "a ! i = row" "j < length row" "row ! j = v"
    by (metis in_set_conv_nth)
  with v show ?thesis by auto
qed

lemma peak_index_eq:
  assumes "concat a \<noteq> []"
  shows "where_pairs (map (map (\<lambda>v. \<bar>v\<bar> = Max (set (map abs (concat a))))) a) \<noteq> [] \<and>
         peak_index a = Inr (hd (where_pairs (map (map (\<lambda>v. \<bar>v\<bar> = Max (set (map abs (concat a))))) a)))"
proof -
  let ?m = "Max (set (map abs (concat a)))"
  let ?ps = "where_pairs (map (map (\<lambda>v. \<bar>v\<bar> = ?m)) a)"
  obtain i j where ij: "i < length a" "j < length (a ! i)" "\<bar>a ! i ! j\<bar> = ?m"
    using Max_abs_attained [OF assms] by blast
  then have "(i, j) \<in> set ?ps" by (simp add: set_where_pairs)
  then have ne: "?ps \<noteq> []" by auto
  have mx: "np_max (map abs (concat a)) = Inr ?m"
    using assms np_max_Inr [of "map abs (concat a)"] by simp
  from ne obtain p ps where p: "?ps = p # ps" by (cases ?ps) auto
  have "peak_index a = Inr (fst p, snd p)"
    by (simp only: peak_index_def peak_where_def mx np_where2_pairs p py_first_def
        sum.case list.case list.map fst_conv snd_conv)
  with ne p show ?thesis by simp
qed

subsection \<open>Peak lookup\<close>

lemma those_map_Some: "those (map Some xs) = Some xs"
  by (induction xs) simp_all

lemma those_None_iff: "those xs = None \<longleftrightarrow> None \<in> set xs"
  by (induction xs) (auto split: option.splits)

lemma peak_where_nan_finite:
  "peak_where_nan (map (map Some) a) = peak_where a"
proof -
  have c: "map (map_option abs) (concat (map (map Some) a)) = map Some (map abs (concat a))"
    by (simp add: map_concat comp_def)
  have e: "map (map (\<lambda>v. np_eq_nan (map_option abs v) (Some m))) (map (map Some) a) =
      map (map (\<lambda>v. \<bar>v\<bar> = m)) a" for m
    by (simp add: comp_def np_eq_nan_def)
  show ?thesis
  proof (cases "np_max (map abs (concat a))")
    case (Inl err)
    then show ?thesis
      by (simp only: peak_where_nan_def peak_where_def np_max_nan_def c those_map_Some
          option.case sum.case)
  next
    case (Inr m)
    then show ?thesis
      by (simp only: peak_where_nan_def peak_where_def np_max_nan_def c those_map_Some
          option.case sum.case e)
  qed
qed

lemma peak_index_nan_finite: "peak_index_nan (map (map Some) a) = peak_index a"
  by (simp add: peak_index_nan_def peak_index_def peak_where_nan_finite)

lemma finite_map_conv:
  assumes "None \<notin> set (concat a)"
  shows "a = map (map Some) (map (map the) a)"
proof -
  have "row = map Some (map the row)" if "row \<in> set a" for row
  proof -
    have "None \<notin> set row" using assms that unfolding set_concat by blast
    then have "\<forall>v\<in>set row. v \<noteq> None" by metis
    then have "map (\<lambda>v. Some (the v)) row = map (\<lambda>v. v) row"
      by (intro map_cong refl) (metis option.collapse)
    then show ?thesis by (simp add: comp_def)
  qed
  then have "map (\<lambda>row. map Some (map the row)) a = map (\<lambda>row. row) a"
    by (intro map_cong) auto
  then show ?thesis by (simp add: comp_def)
qed

lemma where_pairs_all_False:
  assumes "\<forall>row\<in>set b. \<forall>v\<in>set row. \<not> v"
  shows "where_pairs b = []"
proof -
  have "set (where_pairs b) = {}"
    unfolding set_where_pairs using assms by (auto simp: all_set_conv_all_nth)
  then show ?thesis by simp
qed

lemma peak_index_nan_fails:
  assumes "None \<in> set (concat a)"
  shows "peak_index_nan a = Inl IndexError"
proof -
  have "None \<in> set (map (map_option abs) (concat a))"
    using assms by (force simp: image_iff)
  then have mx: "np_max_nan (map (map_option abs) (concat a)) = Inr None"
    unfolding np_max_nan_def using those_None_iff [of "map (map_option abs) (concat a)"]
    by simp
  have "where_pairs (map (map (\<lambda>v. np_eq_nan (map_option abs v) None)) a) = []"
    by (rule where_pairs_all_False) (simp add: np_eq_nan_def split: option.splits)
  then show ?thesis
    by (simp add: peak_index_nan_def peak_where_nan_def mx np_where2_pairs py_first_def)
qed

lemma peak_index_attained:
  assumes "concat a \<noteq> []"
  shows "\<exists>r c. peak_index a = Inr (r, c) \<and> r < length a \<and> c < length (a ! r) \<and>
           \<bar>a ! r ! c\<bar> = Max (set (map abs (concat a)))"
proof -
  let ?m = "Max (set (map abs (concat a)))"
  let ?ps = "where_pairs (map (map (\<lambda>v. \<bar>v\<bar> = ?m)) a)"
  have ne: "?ps \<noteq> []" and pk: "peak_index a = Inr (hd ?ps)"
    using peak_index_eq [OF assms] by simp_all
  from ne have "hd ?ps \<in> set ?ps" by simp
  then have "fst (hd ?ps) < length a \<and> snd (hd ?ps) < length (a ! fst (hd ?ps)) \<and>
      \<bar>a ! fst (hd ?ps) ! snd (hd ?ps)\<bar> = ?m"
    unfolding set_where_pairs by (auto simp: case_prod_beta)
  with pk show ?thesis by (metis prod.collapse)
qed

text \<open>
  Claim C9, as amended. On a nonempty intensity map without NaN entries the peak lookup
  selects at least one index, so reading the first row index and the first column index
  does not fail; the index read lies in the map and the map has its maximum there. On a
  nonempty map that holds a NaN the lookup selects nothing and reading the first index
  raises IndexError.
\<close>

theorem peak_index_nan_total:
  assumes "concat a \<noteq> []"
  shows "(None \<notin> set (concat a) \<longrightarrow>
            (\<exists>r c v. peak_index_nan a = Inr (r, c) \<and> r < length a \<and> c < length (a ! r) \<and>
               a ! r ! c = Some v \<and> \<bar>v\<bar> = Max (set (map (\<lambda>u. \<bar>the u\<bar>) (concat a))))) \<and>
         (None \<in> set (concat a) \<longrightarrow> peak_index_nan a = Inl IndexError)"
proof (intro conjI impI)
  assume fin: "None \<notin> set (concat a)"
  let ?a = "map (map the) a"
  have a: "a = map (map Some) ?a" using fin by (rule finite_map_conv)
  have ne: "concat ?a \<noteq> []"
    using assms by (auto simp: concat_eq_Nil_conv)
  obtain r c where rc: "peak_index ?a = Inr (r, c)" "r < length ?a" "c < length (?a ! r)"
    "\<bar>?a ! r ! c\<bar> = Max (set (map abs (concat ?a)))"
    using peak_index_attained [OF ne] by blast
  have pk: "peak_index_nan a = Inr (r, c)"
    using peak_index_nan_finite [of ?a] a rc(1) by simp
  have r: "r < length a" and c: "c < length (a ! r)" using rc(2,3) by simp_all
  have "a ! r \<in> set a" "a ! r ! c \<in> set (a ! r)" using r c by simp_all
  then have "a ! r ! c \<in> set (concat a)" unfolding set_concat by blast
  with fin obtain v where v: "a ! r ! c = Some v" by (cases "a ! r ! c") auto
  have "?a ! r ! c = v" using r c v by simp
  moreover have "map abs (concat ?a) = map (\<lambda>u. \<bar>the u\<bar>) (concat a)"
    by (simp add: map_concat comp_def)
  ultimately have "\<bar>v\<bar> = Max (set (map (\<lambda>u. \<bar>the u\<bar>) (concat a)))"
    using rc(4) by simp
  with pk r c v show "\<exists>r c v. peak_index_nan a = Inr (r, c) \<and> r < length a \<and>
      c < length (a ! r) \<and> a ! r ! c = Some v \<and>
      \<bar>v\<bar> = Max (set (map (\<lambda>u. \<bar>the u\<bar>) (concat a)))"
    by blast
next
  assume "None \<in> set (concat a)"
  then show "peak_index_nan a = Inl IndexError" by (rule peak_index_nan_fails)
qed

theorem peak_index_nan_total_witness:
  "peak_index_nan [[Some (1/4), Some 1], [Some 1, Some (1/2)]] = Inr (0, 1) \<and>
   peak_index_nan [[Some (1/4), None], [Some 1, Some (1/2)]] = Inl IndexError"
proof -
  have h: "concat [[Some (1/4), Some 1], [Some 1, Some (1/2 :: real)]] \<noteq> []"
    "concat [[Some (1/4), None], [Some 1, Some (1/2 :: real)]] \<noteq> []"
    by simp_all
  have "peak_index_nan [[Some (1/4), Some 1], [Some 1, Some (1/2)]] = Inr (0, 1)"
    by (simp add: peak_index_nan_def peak_where_nan_def np_max_nan_def np_eq_nan_def
        np_where2_def np_where_def py_first_def)
  moreover have "peak_index_nan [[Some (1/4), None], [Some 1, Some (1/2)]] = Inl IndexError"
    using peak_index_nan_total [OF h(2)] by simp
  moreover note peak_index_nan_total [OF h(1)]
  ultimately show ?thesis by blast
qed

text \<open>
  An all-zero transform gives a nonempty map of NaN entries, on which the lookup selects
  no index and reading the first one fails.
\<close>

theorem peak_lookup_nan_counterexample:
  "intensity_map [[0, 0], [0, 0]] = Inr [[None, None], [None, None]] \<and>
   concat [[None, None], [None, None :: real option]] \<noteq> [] \<and>
   peak_where_nan [[None, None], [None, None]] = Inr ([], []) \<and>
   peak_index_nan [[None, None], [None, None]] = Inl IndexError"
  by (simp add: intensity_map_def peak_index_nan_def peak_where_nan_def np_max_nan_def
      np_eq_nan_def np_where2_def np_where_def py_first_def)

subsection \<open>One cut of the beam-width extraction\<close>

lemma cut_fwhm_eq:
  "cut_fwhm xc ac m =
     (let idx = np_where (map (\<lambda>v. exceeds_half \<bar>v\<bar> m) ac) in
      if list_all (\<lambda>i. i < length xc) idx \<and> idx \<noteq> []
      then Inr \<bar>arcmin (xc ! hd idx) - arcmin (xc ! last idx)\<bar> else Inl IndexError)"
proof -
  define idx where "idx = np_where (map (\<lambda>v. exceeds_half \<bar>v\<bar> m) ac)"
  show ?thesis
  proof (cases "list_all (\<lambda>i. i < length xc) idx \<and> idx \<noteq> []")
    case True
    then have a: "\<forall>i\<in>set idx. i < length xc" and ne: "idx \<noteq> []"
      by (simp_all add: list_all_iff)
    from ne have "hd idx \<in> set idx" "last idx \<in> set idx" by simp_all
    with a have b: "hd idx < length xc" "last idx < length xc" by blast+
    from ne obtain i0 rest where cons: "idx = i0 # rest" by (cases idx) auto
    have "cut_fwhm xc ac m = Inr \<bar>map arcmin xc ! hd idx - map arcmin xc ! last idx\<bar>"
      using True ne
      by (simp add: cut_fwhm_def Let_def idx_def [symmetric] np_take_def py_first_def
          py_last_def last_map hd_map cons)
    with b True show ?thesis by (simp add: Let_def idx_def [symmetric])
  next
    case False
    then show ?thesis
      by (auto simp: cut_fwhm_def Let_def idx_def [symmetric] np_take_def py_first_def
          py_last_def split: list.splits)
  qed
qed

lemma arcmin_mono: "u \<le> v \<Longrightarrow> arcmin u \<le> arcmin v"
  by (simp add: arcmin_def divide_right_mono)

lemma arcmin_diff: "arcmin u - arcmin v = arcmin (u - v)"
  by (simp add: arcmin_def field_simps)

lemma np_where_all:
  assumes "list_all id b"
  shows "np_where b = [0..<length b]"
  using assms by (simp add: np_where_def list_all_length)

lemma abs_diff_le_span:
  fixes u v :: real
  assumes "lo \<le> u" "u \<le> hi" "lo \<le> v" "v \<le> hi"
  shows "\<bar>u - v\<bar> \<le> hi - lo"
  using assms by linarith

text \<open>
  Claim C10. Whenever the width of a cut is produced it is nonnegative and at most the
  angular span of the cut's axis (largest minus smallest coordinate, in arcminutes); on
  a monotone axis that span is the distance between the axis endpoints; and when every
  sample of the cut exceeds half maximum, the width is exactly the distance between the
  endpoints.
\<close>

theorem cut_fwhm_bounds:
  assumes "cut_fwhm xc ac m = Inr w"
  shows "0 \<le> w \<and> w \<le> Max (set (map arcmin xc)) - Min (set (map arcmin xc)) \<and>
         ((sorted xc \<or> sorted (rev xc)) \<longrightarrow> w \<le> \<bar>arcmin (last xc) - arcmin (hd xc)\<bar>) \<and>
         (length xc = length ac \<and> list_all (\<lambda>v. exceeds_half \<bar>v\<bar> m) ac \<longrightarrow>
            w = \<bar>arcmin (last xc) - arcmin (hd xc)\<bar>)"
proof -
  define idx where "idx = np_where (map (\<lambda>v. exceeds_half \<bar>v\<bar> m) ac)"
  from assms have ok: "list_all (\<lambda>i. i < length xc) idx" "idx \<noteq> []"
    and w: "w = \<bar>arcmin (xc ! hd idx) - arcmin (xc ! last idx)\<bar>"
    unfolding cut_fwhm_eq Let_def idx_def [symmetric] by (auto split: if_splits)
  define i j where "i = hd idx" and "j = last idx"
  from ok have ij: "i < length xc" "j < length xc"
    unfolding i_def j_def by (auto simp: list_all_iff)
  then have ne: "xc \<noteq> []" by auto
  have w': "w = \<bar>arcmin (xc ! i) - arcmin (xc ! j)\<bar>"
    using w by (simp add: i_def j_def)
  have nonneg: "0 \<le> w" using w' by simp
  have span: "w \<le> Max (set (map arcmin xc)) - Min (set (map arcmin xc))"
  proof -
    have "arcmin (xc ! i) \<in> set (map arcmin xc)" "arcmin (xc ! j) \<in> set (map arcmin xc)"
      using ij by simp_all
    then have "Min (set (map arcmin xc)) \<le> arcmin (xc ! i)"
      "arcmin (xc ! i) \<le> Max (set (map arcmin xc))"
      "Min (set (map arcmin xc)) \<le> arcmin (xc ! j)"
      "arcmin (xc ! j) \<le> Max (set (map arcmin xc))"
      by (simp_all only: Min_le Max_ge List.finite_set)
    then show ?thesis unfolding w' by (rule abs_diff_le_span)
  qed
  have hd_last: "hd xc = xc ! 0" "last xc = xc ! (length xc - 1)"
    using ne by (simp_all add: hd_conv_nth last_conv_nth)
  have mono: "w \<le> \<bar>arcmin (last xc) - arcmin (hd xc)\<bar>" if "sorted xc \<or> sorted (rev xc)"
    using that
  proof
    assume s: "sorted xc"
    have "hd xc \<le> xc ! i" "xc ! i \<le> last xc" "hd xc \<le> xc ! j" "xc ! j \<le> last xc"
      unfolding hd_last using s ij by (simp_all add: sorted_nth_mono)
    then have "arcmin (hd xc) \<le> arcmin (xc ! i)" "arcmin (xc ! i) \<le> arcmin (last xc)"
      "arcmin (hd xc) \<le> arcmin (xc ! j)" "arcmin (xc ! j) \<le> arcmin (last xc)"
      by (simp_all only: arcmin_mono)
    then show ?thesis unfolding w' by linarith
  next
    assume s: "sorted (rev xc)"
    have r: "xc ! l \<le> xc ! k" if "k \<le> l" "l < length xc" for k l
    proof -
      have "rev xc ! (length xc - 1 - l) \<le> rev xc ! (length xc - 1 - k)"
        using that s by (intro sorted_nth_mono) auto
      then show ?thesis using that by (simp add: rev_nth)
    qed
    have "xc ! i \<le> hd xc" "last xc \<le> xc ! i" "xc ! j \<le> hd xc" "last xc \<le> xc ! j"
      unfolding hd_last using ij by (simp_all add: r)
    then have "arcmin (xc ! i) \<le> arcmin (hd xc)" "arcmin (last xc) \<le> arcmin (xc ! i)"
      "arcmin (xc ! j) \<le> arcmin (hd xc)" "arcmin (last xc) \<le> arcmin (xc ! j)"
      by (simp_all only: arcmin_mono)
    then show ?thesis unfolding w' by linarith
  qed
  have full: "w = \<bar>arcmin (last xc) - arcmin (hd xc)\<bar>"
    if "length xc = length ac \<and> list_all (\<lambda>v. exceeds_half \<bar>v\<bar> m) ac"
  proof -
    from that have "list_all id (map (\<lambda>v. exceeds_half \<bar>v\<bar> m) ac)"
      by (simp add: list_all_iff)
    then have "idx = [0..<length ac]"
      unfolding idx_def using np_where_all by fastforce
    moreover have "0 < length ac" using that ne by auto
    ultimately have "i = 0" "j = length xc - 1"
      unfolding i_def j_def using that by (simp_all add: hd_upt last_upt)
    then show ?thesis unfolding w' hd_last by (simp add: abs_minus_commute)
  qed
  from nonneg span mono full show ?thesis by blast
qed

theorem cut_fwhm_bounds_witness:
  "cut_fwhm [-2, -1, 0, 1, 2] [1/10, 3/5, 1, 4/5, 2/5] 1 = Inr \<bar>arcmin (-1) - arcmin 1\<bar> \<and>
   0 \<le> \<bar>arcmin (-1) - arcmin 1\<bar> \<and>
   \<bar>arcmin (-1) - arcmin 1\<bar> \<le> \<bar>arcmin 2 - arcmin (-2)\<bar> \<and>
   cut_fwhm [-1, 0, 1] [3/5, 1, 4/5] 1 = Inr \<bar>arcmin 1 - arcmin (-1)\<bar>"
proof -
  have idx: "np_where [False, True, True, True, False] = [1, 2, 3]"
    "np_where [True, True, True] = [0, 1, 2]"
    by (simp_all add: np_where_def)
  have a: "cut_fwhm [-2, -1, 0, 1, 2] [1/10, 3/5, 1, 4/5, 2/5] 1 = Inr \<bar>arcmin (-1) - arcmin 1\<bar>"
    by (simp add: cut_fwhm_def exceeds_half_def idx np_take_def py_first_def py_last_def)
  have b: "cut_fwhm [-1, 0, 1] [3/5, 1, 4/5] 1 = Inr \<bar>arcmin (-1) - arcmin 1\<bar>"
    by (simp add: cut_fwhm_def exceeds_half_def idx np_take_def py_first_def py_last_def)
  have s: "sorted [-2, -1, 0, 1, 2 :: real]" by simp
  have t: "length [-1, 0, 1 :: real] = length [3/5, 1, 4/5 :: real] \<and>
      list_all (\<lambda>v. exceeds_half \<bar>v\<bar> 1) [3/5, 1, 4/5]"
    by (simp add: exceeds_half_def)
  have "0 \<le> \<bar>arcmin (-1) - arcmin 1\<bar>"
    "\<bar>arcmin (-1) - arcmin 1\<bar> \<le> \<bar>arcmin (last [-2, -1, 0, 1, 2]) - arcmin (hd [-2, -1, 0, 1, 2])\<bar>"
    using cut_fwhm_bounds [OF a] s by blast+
  moreover have "\<bar>arcmin (-1) - arcmin 1\<bar> = \<bar>arcmin (last [-1, 0, 1]) - arcmin (hd [-1, 0, 1])\<bar>"
    using cut_fwhm_bounds [OF b] t by blast
  ultimately show ?thesis using a b by simp
qed

lemma length_np_where_map:
  "length (np_where (map P xs)) = length (filter P xs)"
proof -
  have "filter id (map P xs) = map P (filter P xs)"
    by (simp add: filter_map comp_def)
  then show ?thesis by (simp add: length_np_where)
qed

lemma np_where_bound: "list_all (\<lambda>i. i < length b) (np_where b)"
  by (simp add: list_all_iff np_where_set)

text \<open>
  Claim C3, as amended. For a cut and a coordinate cut of the same length in which fewer
  than two samples exceed the threshold 0.5: with exactly one such sample the width
  returned is 0, without any error; with none, reading the first element of the empty
  selection raises IndexError. There is no separate result for an undersampled cut.
\<close>

theorem cut_fwhm_undersampled:
  assumes "length xc = length ac"
    and "length (filter (\<lambda>v. exceeds_half \<bar>v\<bar> m) ac) < 2"
  shows "cut_fwhm xc ac m =
           (if filter (\<lambda>v. exceeds_half \<bar>v\<bar> m) ac = [] then Inl IndexError else Inr 0)"
proof -
  define idx where "idx = np_where (map (\<lambda>v. exceeds_half \<bar>v\<bar> m) ac)"
  have len: "length idx = length (filter (\<lambda>v. exceeds_half \<bar>v\<bar> m) ac)"
    unfolding idx_def by (rule length_np_where_map)
  have bnd: "list_all (\<lambda>i. i < length xc) idx"
    unfolding idx_def using np_where_bound [of "map (\<lambda>v. exceeds_half \<bar>v\<bar> m) ac"] assms(1)
    by simp
  show ?thesis
  proof (cases "idx = []")
    case True
    with len have "filter (\<lambda>v. exceeds_half \<bar>v\<bar> m) ac = []" by simp
    with True show ?thesis
      unfolding cut_fwhm_eq Let_def idx_def [symmetric] by simp
  next
    case False
    with len assms(2) have "length idx = 1" by (cases idx) auto
    then obtain k where k: "idx = [k]" by (cases idx) auto
    from False len have "filter (\<lambda>v. exceeds_half \<bar>v\<bar> m) ac \<noteq> []" by auto
    with bnd k show ?thesis
      unfolding cut_fwhm_eq Let_def idx_def [symmetric] by simp
  qed
qed

theorem cut_fwhm_undersampled_witness:
  "length [-1, 0, 1 :: real] = length [1/10, 1, 1/10 :: real] \<and>
   length (filter (\<lambda>v. exceeds_half \<bar>v\<bar> 1) [1/10, 1, 1/10]) < 2 \<and>
   cut_fwhm [-1, 0, 1] [1/10, 1, 1/10] 1 = Inr 0 \<and>
   cut_fwhm [-1, 0, 1] [1/10, 2/5, 1/10] 1 = Inl IndexError"
proof -
  have l: "length [-1, 0, 1 :: real] = length [1/10, 1, 1/10 :: real]"
    "length [-1, 0, 1 :: real] = length [1/10, 2/5, 1/10 :: real]" by simp_all
  have f1: "filter (\<lambda>v. exceeds_half \<bar>v\<bar> 1) [1/10, 1, 1/10] = [1]"
    by (simp add: exceeds_half_def)
  have f2: "filter (\<lambda>v. exceeds_half \<bar>v\<bar> 1) [1/10, 2/5, 1/10] = []"
    by (simp add: exceeds_half_def)
  have c1: "length (filter (\<lambda>v. exceeds_half \<bar>v\<bar> 1) [1/10, 1, 1/10]) < 2"
    unfolding f1 by simp
  have c2: "length (filter (\<lambda>v. exceeds_half \<bar>v\<bar> 1) [1/10, 2/5, 1/10]) < 2"
    unfolding f2 by simp
  have "cut_fwhm [-1, 0, 1] [1/10, 1, 1/10] 1 = Inr 0"
    using cut_fwhm_undersampled [OF l(1) c1] unfolding f1 by simp
  moreover have "cut_fwhm [-1, 0, 1] [1/10, 2/5, 1/10] 1 = Inl IndexError"
    using cut_fwhm_undersampled [OF l(2) c2] unfolding f2 by simp
  ultimately show ?thesis using l c1 by blast
qed

lemma ex_map_peak: "np_max (map abs (concat ex_map)) = Inr 1" "peak_index ex_map = Inr (1, 1)"
  by (simp_all add: ex_map_def peak_index_def peak_where_def np_where2_def np_where_def
      py_first_def)

text \<open>
  On the example map the row and the column through the peak each have one sample above
  0.5, and the extraction returns the width 0 instead of failing.
\<close>

theorem fwhm_single_sample_counterexample:
  "length (filter (\<lambda>v. 1 / 2 < v) (ex_map ! 1)) = 1 \<and>
   length (filter (\<lambda>v. 1 / 2 < v) (map (\<lambda>row. row ! 1) ex_map)) = 1 \<and>
   fwhm ex_map ex_x_ang ex_y_ang = Inr 0"
proof -
  have idx: "np_where [False, True, False] = [1]"
    by (simp add: np_where_def)
  have cut: "cut_fwhm [-1, 0, 1] [1/10, 1, 1/10] 1 = Inr 0"
    by (simp add: cut_fwhm_def exceeds_half_def idx np_take_def py_first_def py_last_def)
  have rows: "np_row ex_x_ang (Suc 0) = Inr [-1, 0, 1]" "np_row ex_map (Suc 0) = Inr [1/10, 1, 1/10]"
    by (simp_all add: np_row_def ex_x_ang_def ex_map_def)
  have cols: "np_col ex_y_ang (Suc 0) = Inr [-1, 0, 1]" "np_col ex_map (Suc 0) = Inr [1/10, 1, 1/10]"
    by (simp_all add: np_col_def ex_y_ang_def ex_map_def)
  have "fwhm ex_map ex_x_ang ex_y_ang = Inr 0"
    by (simp add: fwhm_def ex_map_peak rows cols cut)
  moreover have "length (filter (\<lambda>v. 1 / 2 < v) (ex_map ! 1)) = 1"
    "length (filter (\<lambda>v. 1 / 2 < v) (map (\<lambda>row. row ! 1) ex_map)) = 1"
    by (simp_all add: ex_map_def)
  ultimately show ?thesis by simp
qed

subsection \<open>Phase of the synthesised field\<close>

lemma round_half_even_le:
  assumes "z \<le> of_int N"
  shows "round_half_even z \<le> N"
proof -
  have fl: "\<lfloor>z\<rfloor> \<le> N" using assms by (simp add: floor_le_iff)
  show ?thesis
  proof (cases "z = of_int \<lfloor>z\<rfloor>")
    case True
    then have "z - of_int \<lfloor>z\<rfloor> < 1 / 2" by simp
    then show ?thesis using fl by (simp add: round_half_even_def Let_def)
  next
    case False
    then have "of_int \<lfloor>z\<rfloor> < z" using of_int_floor_le [of z] by linarith
    then have "of_int \<lfloor>z\<rfloor> < (of_int N :: real)" using assms by linarith
    then have "\<lfloor>z\<rfloor> + 1 \<le> N" by simp
    then show ?thesis using fl by (simp add: round_half_even_def Let_def)
  qed
qed

lemma round_half_even_nonneg:
  assumes "0 \<le> z"
  shows "0 \<le> round_half_even z"
proof -
  have "0 \<le> \<lfloor>z\<rfloor>" using assms by simp
  then show ?thesis by (simp add: round_half_even_def Let_def)
qed

lemma round_half_even_of_int: "round_half_even (of_int M) = M"
  by (simp add: round_half_even_def Let_def)

lemma f64_exponent_eqI:
  assumes "2 powi e \<le> \<bar>x\<bar>" "\<bar>x\<bar> < 2 powi (e + 1)"
  shows "f64_exponent x = e"
proof -
  have "0 < (2::real) powi e" by (simp add: zero_less_power_int)
  then have pos: "0 < \<bar>x\<bar>" using assms(1) by linarith
  have "(2::real) powr real_of_int e \<le> \<bar>x\<bar>" "\<bar>x\<bar> < (2::real) powr real_of_int (e + 1)"
    using assms by (simp_all only: powr_real_of_int' [of 2, simplified])
  then show ?thesis
    unfolding f64_exponent_def using pos by (simp add: floor_log_eq_powr_iff)
qed

lemma rnd64_exact:
  assumes "2 powi e \<le> \<bar>x\<bar>" "\<bar>x\<bar> < 2 powi (e + 1)"
    and "x / 2 powi (max (e - 52) (- 1074)) = of_int M"
  shows "rnd64 x = x"
proof -
  have "0 < (2::real) powi e" by (simp add: zero_less_power_int)
  then have "0 < \<bar>x\<bar>" using assms(1) by linarith
  then have nz: "x \<noteq> 0" by simp
  have q: "f64_quantum x = 2 powi (max (e - 52) (- 1074))"
    by (simp add: f64_quantum_def f64_exponent_eqI [OF assms(1,2)])
  have qpos: "0 < f64_quantum x" unfolding q by (simp add: zero_less_power_int)
  have "rnd64 x = of_int M * f64_quantum x"
    using nz assms(3) by (simp add: rnd64_def q round_half_even_of_int)
  also have "\<dots> = x / f64_quantum x * f64_quantum x"
    using assms(3) by (simp add: q)
  also have "\<dots> = x" using qpos by simp
  finally show ?thesis .
qed

lemma rnd64_minus: "rnd64 (- x) = - rnd64 x"
proof (cases "x = 0")
  case True
  then show ?thesis by (simp add: rnd64_def)
next
  case False
  have q: "f64_quantum (- x) = f64_quantum x"
    by (simp add: f64_quantum_def f64_exponent_def)
  have r: "round_half_even (- z) = - round_half_even z" for z
  proof (cases "z = of_int \<lfloor>z\<rfloor>")
    case True
    then obtain n where "z = of_int n" by metis
    then show ?thesis
      using round_half_even_of_int [of n] round_half_even_of_int [of "- n"] by simp
  next
    case False
    then have c: "\<lfloor>- z\<rfloor> = - \<lfloor>z\<rfloor> - 1"
      by (metis ceiling_altdef ceiling_def add_diff_cancel minus_add minus_diff_eq uminus_add_conv_diff minus_minus)
    show ?thesis
      unfolding round_half_even_def Let_def c by (auto simp: algebra_simps)
  qed
  show ?thesis using False by (simp add: rnd64_def q r)
qed

lemma two_pi_f64_grid: "two_pi_f64 = of_int 7074237752028440 * 2 powi (- 50)"
  by (simp add: two_pi_f64_def np_pi_def)

lemma two_pi_f64_range: "4 < two_pi_f64" "two_pi_f64 < 8"
  by (simp_all add: two_pi_f64_def np_pi_def)

lemma f64_max_ge: "8 \<le> f64_max"
proof -
  have "(1::real) \<le> 2 ^ 971" by (rule one_le_power) simp
  then have "(2 ^ 53 - 1) * (1::real) \<le> (2 ^ 53 - 1) * 2 ^ 971"
    by (intro mult_left_mono) simp_all
  then show ?thesis unfolding f64_max_def by simp
qed

lemma rnd64_below_two_pi:
  assumes "0 < y" "y \<le> two_pi_f64"
  shows "0 \<le> rnd64 y" "rnd64 y \<le> two_pi_f64"
proof -
  define q where "q = max (f64_exponent y - 52) (- 1074)"
  have "log 2 y < 3"
    using assms two_pi_f64_range(2) by (simp add: log_less_iff)
  then have "f64_exponent y < 3"
    using assms(1) by (simp add: f64_exponent_def floor_less_iff)
  then have q: "q \<le> - 50" by (simp add: q_def)
  have quantum: "f64_quantum y = 2 powi q" by (simp add: f64_quantum_def q_def)
  have qpos: "0 < (2::real) powi q" by (simp add: zero_less_power_int)
  have nz: "y \<noteq> 0" using assms(1) by simp
  have r: "rnd64 y = of_int (round_half_even (y / 2 powi q)) * 2 powi q"
    using nz by (simp add: rnd64_def quantum)
  have "0 \<le> y / 2 powi q" using assms(1) qpos by simp
  then have "0 \<le> round_half_even (y / 2 powi q)" by (rule round_half_even_nonneg)
  then show "0 \<le> rnd64 y" unfolding r using qpos by simp
  define N :: int where "N = 7074237752028440 * 2 ^ nat (- 50 - q)"
  have "(2::real) powi (- 50) / 2 powi q = 2 powi (- 50 - q)"
    by (simp add: power_int_diff)
  also have "\<dots> = 2 powi int (nat (- 50 - q))" using q by simp
  also have "\<dots> = 2 ^ nat (- 50 - q)" by (rule power_int_of_nat)
  finally have "two_pi_f64 / 2 powi q = of_int N"
    unfolding two_pi_f64_grid N_def by simp
  moreover have "y / 2 powi q \<le> two_pi_f64 / 2 powi q"
    using assms(2) qpos by (simp add: divide_right_mono)
  ultimately have "round_half_even (y / 2 powi q) \<le> N"
    by (intro round_half_even_le) simp
  then have "of_int (round_half_even (y / 2 powi q)) * 2 powi q \<le> of_int N * (2::real) powi q"
    using qpos by (simp add: mult_right_mono)
  also have "of_int N * (2::real) powi q = two_pi_f64"
    using \<open>two_pi_f64 / 2 powi q = of_int N\<close> qpos by (simp add: field_simps)
  finally show "rnd64 y \<le> two_pi_f64" unfolding r .
qed

lemma fl_below_two_pi:
  assumes "0 < y" "y \<le> two_pi_f64"
  shows "fl y = Some (rnd64 y)"
proof -
  have "\<bar>rnd64 y\<bar> \<le> two_pi_f64"
    using rnd64_below_two_pi [OF assms] by simp
  then have "\<bar>rnd64 y\<bar> \<le> f64_max"
    using two_pi_f64_range(2) f64_max_ge by linarith
  then show ?thesis by (simp add: fl_def)
qed

lemma floor_remainder_range:
  fixes x b :: real
  assumes "0 < b"
  shows "0 \<le> x - of_int \<lfloor>x / b\<rfloor> * b" "x - of_int \<lfloor>x / b\<rfloor> * b < b"
proof -
  have "of_int \<lfloor>x / b\<rfloor> * b \<le> x" "x < (of_int \<lfloor>x / b\<rfloor> + 1) * b"
    using assms by (rule floor_divide_lower, rule floor_divide_upper)
  then show "0 \<le> x - of_int \<lfloor>x / b\<rfloor> * b" "x - of_int \<lfloor>x / b\<rfloor> * b < b"
    by (simp_all add: algebra_simps)
qed

lemma np_mod_f64_finite:
  "np_mod_f64 (Some x) two_pi_f64 =
     Some (if 0 \<le> x then x - of_int \<lfloor>x / two_pi_f64\<rfloor> * two_pi_f64
           else rnd64 (x - of_int \<lfloor>x / two_pi_f64\<rfloor> * two_pi_f64))"
proof -
  let ?b = "two_pi_f64"
  let ?r = "x - of_int \<lfloor>x / ?b\<rfloor> * ?b"
  have b: "0 < ?b" using two_pi_f64_range(1) by linarith
  note rr = floor_remainder_range [OF b, of x]
  show ?thesis
  proof (cases "0 \<le> x")
    case True
    then have "0 \<le> x / ?b" using b by simp
    then have t: "trunc (x / ?b) = \<lfloor>x / ?b\<rfloor>" by (simp add: trunc_def)
    show ?thesis
      using True b rr(1) by (auto simp: np_mod_f64_def t Let_def)
  next
    case False
    then have neg: "x / ?b < 0" using b by (simp add: divide_neg_pos)
    then have t: "trunc (x / ?b) = \<lceil>x / ?b\<rceil>" by (simp add: trunc_def)
    show ?thesis
    proof (cases "x / ?b = of_int \<lfloor>x / ?b\<rfloor>")
      case True
      then have c: "\<lceil>x / ?b\<rceil> = \<lfloor>x / ?b\<rfloor>" by (simp add: ceiling_altdef)
      have "of_int \<lfloor>x / ?b\<rfloor> * ?b = x"
        using True b by (simp add: field_simps)
      then have "?r = 0" by simp
      with False b show ?thesis
        by (simp add: np_mod_f64_def t c Let_def rnd64_def)
    next
      case ni: False
      then have c: "\<lceil>x / ?b\<rceil> = \<lfloor>x / ?b\<rfloor> + 1" by (simp add: ceiling_altdef)
      have "?r \<noteq> 0"
      proof
        assume "?r = 0"
        then have "x / ?b = of_int \<lfloor>x / ?b\<rfloor>" using b by (simp add: field_simps)
        with ni show False by simp
      qed
      then have pos: "0 < ?r" using rr(1) by linarith
      define r' where "r' = x - of_int (trunc (x / ?b)) * ?b"
      have r': "r' = ?r - ?b" by (simp add: r'_def t c algebra_simps)
      then have f: "r' < 0" "r' \<noteq> 0" "r' + ?b = ?r" using rr(2) by simp_all
      have g: "fl ?r = Some (rnd64 ?r)"
        using pos rr(2) by (intro fl_below_two_pi) simp_all
      have "np_mod_f64 (Some x) ?b = fl (r' + ?b)"
        unfolding np_mod_f64_def option.case r'_def [symmetric] Let_def
        using f(1,2) b by simp
      then show ?thesis using False f(3) g by simp
    qed
  qed
qed

text \<open>
  Claim C5, as amended. For every pathlength array \<open>P\<close> and wavenumber \<open>k\<close>, each phase is
  computed in double precision as \<open>(k (P\<^sub>i - mean P) / 1e3 / 2) mod 2\<pi>\<close>, with \<open>2\<pi>\<close> the
  double \<^verbatim>\<open>2 * np.pi\<close>. When the scaled pathlength is finite the phase is its remainder
  of the floored division, exact for a nonnegative and rounded to the nearest double for
  a negative scaled pathlength, and lies in the closed interval from 0 to \<open>2\<pi>\<close>. When
  the scaled pathlength is not finite, the phase is NaN.
\<close>

theorem p_sim_f64_range:
  assumes "i < length P"
  shows "case phase_arg k P ! i of
           None \<Rightarrow> p_sim_f64 k P ! i = None
         | Some x \<Rightarrow>
             (\<exists>ph. p_sim_f64 k P ! i = Some ph \<and> 0 \<le> ph \<and> ph \<le> two_pi_f64 \<and>
                ph = (if 0 \<le> x then x - of_int \<lfloor>x / two_pi_f64\<rfloor> * two_pi_f64
                      else rnd64 (x - of_int \<lfloor>x / two_pi_f64\<rfloor> * two_pi_f64)))"
proof (cases "phase_arg k P ! i")
  case None
  have "i < length (phase_arg k P)" using assms by (simp add: phase_arg_def)
  then have "p_sim_f64 k P ! i = np_mod_f64 (phase_arg k P ! i) two_pi_f64"
    by (simp add: p_sim_f64_def)
  with None show ?thesis by (simp add: np_mod_f64_def)
next
  case (Some x)
  let ?b = "two_pi_f64"
  let ?r = "x - of_int \<lfloor>x / ?b\<rfloor> * ?b"
  have b: "0 < ?b" using two_pi_f64_range(1) by linarith
  note rr = floor_remainder_range [OF b, of x]
  have "i < length (phase_arg k P)" using assms by (simp add: phase_arg_def)
  then have "p_sim_f64 k P ! i = np_mod_f64 (phase_arg k P ! i) two_pi_f64"
    by (simp add: p_sim_f64_def)
  then have v: "p_sim_f64 k P ! i = Some (if 0 \<le> x then ?r else rnd64 ?r)"
    unfolding Some np_mod_f64_finite .
  have "0 \<le> (if 0 \<le> x then ?r else rnd64 ?r) \<and> (if 0 \<le> x then ?r else rnd64 ?r) \<le> ?b"
  proof (cases "0 \<le> x")
    case True
    then show ?thesis using rr by simp
  next
    case False
    show ?thesis
    proof (cases "?r = 0")
      case True
      then show ?thesis using False b by (simp add: rnd64_def)
    next
      case nz: False
      then have "0 < ?r" "?r \<le> ?b" using rr by linarith+
      then show ?thesis using False rnd64_below_two_pi [of ?r] by simp
    qed
  qed
  with v show ?thesis unfolding Some by simp
qed

lemma fl_zero: "fl 0 = Some 0"
  by (simp add: fl_def rnd64_def f64_max_def)

lemma fl_exact:
  assumes "2 powi e \<le> \<bar>x\<bar>" "\<bar>x\<bar> < 2 powi (e + 1)"
    and "x / 2 powi (max (e - 52) (- 1074)) = of_int M"
    and "\<bar>x\<bar> \<le> 8"
  shows "fl x = Some x"
proof -
  have "rnd64 x = x" using assms(1-3) by (rule rnd64_exact)
  moreover have "\<bar>x\<bar> \<le> f64_max" using assms(4) f64_max_ge by linarith
  ultimately show ?thesis by (simp add: fl_def)
qed

lemma fl_values:
  "fl (1 / 2 ^ 52) = Some (1 / 2 ^ 52)"
  "fl (1 / 2 ^ 53) = Some (1 / 2 ^ 53)"
  "fl (- (1 / 2 ^ 52)) = Some (- (1 / 2 ^ 52))"
  "fl (- (1 / 2 ^ 53)) = Some (- (1 / 2 ^ 53))"
  "fl (125 / 2 ^ 49) = Some (125 / 2 ^ 49)"
  "fl (- (125 / 2 ^ 49)) = Some (- (125 / 2 ^ 49))"
proof -
  show "fl (1 / 2 ^ 52) = Some (1 / 2 ^ 52)"
    by (rule fl_exact [where e = "- 52" and M = "2 ^ 52"]) simp_all
  show "fl (1 / 2 ^ 53) = Some (1 / 2 ^ 53)"
    by (rule fl_exact [where e = "- 53" and M = "2 ^ 52"]) simp_all
  show "fl (- (1 / 2 ^ 52)) = Some (- (1 / 2 ^ 52))"
    by (rule fl_exact [where e = "- 52" and M = "- (2 ^ 52)"]) simp_all
  show "fl (- (1 / 2 ^ 53)) = Some (- (1 / 2 ^ 53))"
    by (rule fl_exact [where e = "- 53" and M = "- (2 ^ 52)"]) simp_all
  show "fl (125 / 2 ^ 49) = Some (125 / 2 ^ 49)"
    by (rule fl_exact [where e = "- 43" and M = "125 * 2 ^ 46"]) simp_all
  show "fl (- (125 / 2 ^ 49)) = Some (- (125 / 2 ^ 49))"
    by (rule fl_exact [where e = "- 43" and M = "- (125 * 2 ^ 46)"]) simp_all
qed

lemma mean_example: "np_mean_f64 [0, 1 / 2 ^ 52] = Some (1 / 2 ^ 53)"
  using fl_values(1,2) by (simp add: np_mean_f64_def fl_add_def fl_div_def fl_zero)

lemma phase_arg_example:
  "phase_arg 2000 [0, 1 / 2 ^ 52] = [Some (- (1 / 2 ^ 53)), Some (1 / 2 ^ 53)]"
  using fl_values
  by (simp add: phase_arg_def mean_example [simplified] fl_sub_def fl_mul_def fl_div_def)

lemma round_half_even_near:
  assumes "\<bar>d\<bar> < 1 / 2"
  shows "round_half_even (of_int M + d) = M"
proof (cases "0 \<le> d")
  case True
  then have "\<lfloor>of_int M + d\<rfloor> = M" using assms by (simp add: floor_eq_iff)
  then show ?thesis using True assms by (simp add: round_half_even_def Let_def)
next
  case False
  then have f: "\<lfloor>of_int M + d\<rfloor> = M - 1" using assms by (simp add: floor_eq_iff)
  have "\<not> (of_int M + d - of_int (M - 1) < 1 / 2)" "1 / 2 < of_int M + d - of_int (M - 1)"
    using assms False by simp_all
  then show ?thesis unfolding round_half_even_def Let_def f by simp
qed

lemma rnd64_near:
  assumes "2 powi e \<le> \<bar>x\<bar>" "\<bar>x\<bar> < 2 powi (e + 1)"
    and "x / 2 powi (max (e - 52) (- 1074)) = of_int M + d" "\<bar>d\<bar> < 1 / 2"
  shows "rnd64 x = of_int M * 2 powi (max (e - 52) (- 1074))"
proof -
  have "0 < (2::real) powi e" by (simp add: zero_less_power_int)
  then have "0 < \<bar>x\<bar>" using assms(1) by linarith
  then have nz: "x \<noteq> 0" by simp
  have q: "f64_quantum x = 2 powi (max (e - 52) (- 1074))"
    by (simp add: f64_quantum_def f64_exponent_eqI [OF assms(1,2)])
  show ?thesis
    using nz by (simp add: rnd64_def q assms(3) round_half_even_near [OF assms(4)])
qed

lemma rnd64_edge: "rnd64 (two_pi_f64 - 1 / 2 ^ 53) = two_pi_f64"
proof -
  have "rnd64 (two_pi_f64 - 1 / 2 ^ 53) =
      of_int 7074237752028440 * 2 powi (max (2 - 52) (- 1074))"
    by (rule rnd64_near [where d = "- (1 / 8)"]) (simp_all add: two_pi_f64_def np_pi_def)
  then show ?thesis by (simp add: two_pi_f64_grid)
qed

lemma p_sim_f64_edge:
  "p_sim_f64 2000 [0, 1 / 2 ^ 52] = [Some two_pi_f64, Some (1 / 2 ^ 53)]"
proof -
  have f1: "\<lfloor>- (1 / 2 ^ 53) / two_pi_f64\<rfloor> = - 1"
    by (simp add: two_pi_f64_def np_pi_def)
  have f2: "\<lfloor>1 / 2 ^ 53 / two_pi_f64\<rfloor> = 0"
    by (simp add: two_pi_f64_def np_pi_def)
  have "np_mod_f64 (Some (- (1 / 2 ^ 53))) two_pi_f64 = Some (rnd64 (two_pi_f64 - 1 / 2 ^ 53))"
    unfolding np_mod_f64_finite f1 by simp
  then have a: "np_mod_f64 (Some (- (1 / 2 ^ 53))) two_pi_f64 = Some two_pi_f64"
    by (simp only: rnd64_edge)
  have b: "np_mod_f64 (Some (1 / 2 ^ 53)) two_pi_f64 = Some (1 / 2 ^ 53)"
    unfolding np_mod_f64_finite f2 by simp
  show ?thesis
    unfolding p_sim_f64_def phase_arg_example by (simp only: list.map a b)
qed

lemma rnd64_huge: "rnd64 (2 ^ 1024) = 2 ^ 1024" "rnd64 (- (2 ^ 1024)) = - (2 ^ 1024)"
proof -
  show "rnd64 (2 ^ 1024) = 2 ^ 1024"
    by (rule rnd64_exact [where e = 1024 and M = "2 ^ 52"]) simp_all
  then show "rnd64 (- (2 ^ 1024)) = - (2 ^ 1024)" by (simp only: rnd64_minus)
qed

lemma fl_overflow: "fl (2 ^ 1024) = None" "fl (- (2 ^ 1024)) = None"
proof -
  have "f64_max < 2 ^ 1024" by (simp add: f64_max_def)
  then show "fl (2 ^ 1024) = None" "fl (- (2 ^ 1024)) = None"
    by (simp_all add: fl_def rnd64_huge del: power_numeral)
qed

lemma fl_small_values: "fl 4 = Some 4" "fl 2 = Some 2" "fl (- 2) = Some (- 2)"
proof -
  show "fl 4 = Some 4"
    by (rule fl_exact [where e = 2 and M = "2 ^ 52"]) simp_all
  show "fl 2 = Some 2"
    by (rule fl_exact [where e = 1 and M = "2 ^ 52"]) simp_all
  show "fl (- 2) = Some (- 2)"
    by (rule fl_exact [where e = 1 and M = "- (2 ^ 52)"]) simp_all
qed

lemma phase_arg_overflow: "phase_arg (2 ^ 1023) [0, 4] = [None, None]"
proof -
  have m: "np_mean_f64 [0, 4] = Some 2"
    by (simp add: np_mean_f64_def fl_add_def fl_div_def fl_zero fl_small_values)
  have p: "(2::real) ^ 1023 * 2 = 2 ^ 1024" "(2::real) ^ 1023 * - 2 = - (2 ^ 1024)"
    by simp_all
  show ?thesis
    unfolding phase_arg_def m
    by (simp add: fl_sub_def fl_mul_def fl_div_def fl_small_values p fl_overflow
        del: power_numeral)
qed

theorem p_sim_f64_range_witness:
  "(\<exists>ph. p_sim_f64 2000 [0, 1 / 2 ^ 52] ! 1 = Some ph \<and> 0 \<le> ph \<and> ph \<le> two_pi_f64 \<and>
      ph = 1 / 2 ^ 53) \<and>
   (\<exists>ph. p_sim_f64 2000 [0, 1 / 2 ^ 52] ! 0 = Some ph \<and> 0 \<le> ph \<and> ph \<le> two_pi_f64 \<and>
      ph = two_pi_f64) \<and>
   p_sim_f64 (2 ^ 1023) [0, 4] ! 0 = None"
proof -
  have h: "(1::nat) < length [0, 1 / 2 ^ 52 :: real]" "(0::nat) < length [0, 1 / 2 ^ 52 :: real]"
    "(0::nat) < length [0, 4 :: real]"
    by simp_all
  have f1: "\<lfloor>- (1 / 2 ^ 53) / two_pi_f64\<rfloor> = - 1"
    by (simp add: two_pi_f64_def np_pi_def)
  have f2: "\<lfloor>1 / 2 ^ 53 / two_pi_f64\<rfloor> = 0"
    by (simp add: two_pi_f64_def np_pi_def)
  have a: "\<exists>ph. p_sim_f64 2000 [0, 1 / 2 ^ 52] ! 1 = Some ph \<and> 0 \<le> ph \<and> ph \<le> two_pi_f64 \<and>
      ph = 1 / 2 ^ 53"
    using p_sim_f64_range [OF h(1), of 2000] unfolding phase_arg_example
    by (simp add: f2 [simplified])
  have "\<exists>ph. p_sim_f64 2000 [0, 1 / 2 ^ 52] ! 0 = Some ph \<and> 0 \<le> ph \<and> ph \<le> two_pi_f64 \<and>
      ph = rnd64 (two_pi_f64 - 1 / 2 ^ 53)"
    using p_sim_f64_range [OF h(2), of 2000] unfolding phase_arg_example
    by (simp add: f1 [simplified])
  then have b: "\<exists>ph. p_sim_f64 2000 [0, 1 / 2 ^ 52] ! 0 = Some ph \<and> 0 \<le> ph \<and>
      ph \<le> two_pi_f64 \<and> ph = two_pi_f64"
    by (simp only: rnd64_edge)
  have c: "p_sim_f64 (2 ^ 1023) [0, 4] ! 0 = None"
    using p_sim_f64_range [OF h(3), of "2 ^ 1023"] unfolding phase_arg_overflow
    by simp
  from a b c show ?thesis by blast
qed

text \<open>
  The interval is not half-open: for a small negative scaled pathlength the remainder
  plus \<open>2\<pi>\<close> rounds to \<open>2\<pi>\<close>, which is the phase returned. And an overflow of the scaled
  pathlength gives NaN phases.
\<close>

theorem p_sim_f64_half_open_counterexample:
  "p_sim_f64 2000 [0, 1 / 2 ^ 52] = [Some two_pi_f64, Some (1 / 2 ^ 53)] \<and>
   \<not> (\<exists>ph. p_sim_f64 2000 [0, 1 / 2 ^ 52] ! 0 = Some ph \<and> 0 \<le> ph \<and> ph < two_pi_f64) \<and>
   p_sim_f64 (2 ^ 1023) [0, 4] = [None, None]"
proof -
  have "p_sim_f64 (2 ^ 1023) [0, 4] = [None, None]"
    unfolding p_sim_f64_def phase_arg_overflow by (simp add: np_mod_f64_def)
  moreover have "\<not> (\<exists>ph. p_sim_f64 2000 [0, 1 / 2 ^ 52] ! 0 = Some ph \<and> 0 \<le> ph \<and>
      ph < two_pi_f64)"
    unfolding p_sim_f64_edge by simp
  ultimately show ?thesis using p_sim_f64_edge by blast
qed

subsection \<open>Failures of the field synthesis\<close>

lemma noise_pos: "0 < noise"
  by (simp add: noise_def)

lemma length_p_sim: "length (p_sim k P) = length P"
  by (simp add: p_sim_def)

lemma np_max_isl: "isl (np_max xs) \<longleftrightarrow> xs = []"
  by (cases xs) simp_all

lemma np_max_Inl: "np_max xs = Inl e \<Longrightarrow> xs = []"
  by (cases xs) simp_all

lemma amplitude_isl: "isl (amplitude A) \<longleftrightarrow> A = []"
proof (cases "A = []")
  case True
  then show ?thesis by (simp add: amplitude_def)
next
  case False
  then have "\<not> isl (amplitude A)"
    by (auto simp: amplitude_def Let_def split: sum.splits dest!: np_max_Inl)
  with False show ?thesis by simp
qed

lemma amplitude_length:
  assumes "amplitude A = Inr amp"
  shows "length amp = length A"
  using assms
  by (auto simp: amplitude_def Let_def split: sum.splits if_splits)

lemma amplitude_zero:
  assumes "A \<noteq> []" and "Max (set (map abs A)) = 0"
  shows "amplitude A = Inr (replicate (length A) None)"
proof -
  have "np_max (map abs A) = Inr 0"
    using assms np_max_Inr [of "map abs A"] by simp
  then show ?thesis by (simp add: amplitude_def map_replicate_const)
qed

lemma np_broadcast2_isl:
  "isl (np_broadcast2 f xs ys) \<longleftrightarrow>
     length xs \<noteq> length ys \<and> length xs \<noteq> 1 \<and> length ys \<noteq> 1"
  by (simp add: np_broadcast2_def)

lemma beam_sim_isl:
  "isl (beam_sim A ph) \<longleftrightarrow>
     A = [] \<or> (length A \<noteq> length ph \<and> length A \<noteq> 1 \<and> length ph \<noteq> 1)"
proof (cases "amplitude A")
  case (Inl e)
  then have "A = []" using amplitude_isl [of A] by simp
  with Inl show ?thesis by (simp add: beam_sim_def)
next
  case (Inr amp)
  then have "A \<noteq> []" using amplitude_isl [of A] by auto
  moreover have "length amp = length A" using Inr by (rule amplitude_length)
  ultimately show ?thesis
    using Inr by (simp add: beam_sim_def np_broadcast2_isl)
qed

text \<open>
  Claim C8, as amended. The synthesis raises exactly when the amplitude array is empty, or
  when the amplitude and pathlength arrays differ in length and neither has length 1
  (broadcasting). A nonempty amplitude array whose largest absolute value is 0, with a
  pathlength array of the same length, raises nothing: every entry of the result is a
  non-finite value.
\<close>

theorem field_synth_failure:
  "(isl (field_synth k A P) \<longleftrightarrow>
      A = [] \<or> (length A \<noteq> length P \<and> length A \<noteq> 1 \<and> length P \<noteq> 1)) \<and>
   (A \<noteq> [] \<and> Max (set (map abs A)) = 0 \<and> length A = length P \<longrightarrow>
      field_synth k A P = Inr (replicate (length A) None))"
proof -
  have a: "isl (field_synth k A P) \<longleftrightarrow>
      A = [] \<or> (length A \<noteq> length P \<and> length A \<noteq> 1 \<and> length P \<noteq> 1)"
    by (simp add: field_synth_def beam_sim_isl length_p_sim)
  have b: "field_synth k A P = Inr (replicate (length A) None)"
    if "A \<noteq> [] \<and> Max (set (map abs A)) = 0 \<and> length A = length P"
  proof -
    have amp: "amplitude A = Inr (replicate (length A) None)"
      using that amplitude_zero by blast
    have "length (replicate (length A) (None :: real option)) = length (p_sim k P)"
      using that by (simp add: length_p_sim)
    then show ?thesis
      unfolding field_synth_def beam_sim_def amp np_broadcast2_def
      by (simp add: map_replicate_const zip_replicate1 length_p_sim comp_def)
  qed
  from a b show ?thesis by blast
qed

theorem field_synth_failure_witness:
  "[0, 0 :: real] \<noteq> [] \<and> Max (set (map abs [0, 0 :: real])) = 0 \<and>
   length [0, 0 :: real] = length [5, 7 :: real] \<and>
   field_synth 1 [0, 0] [5, 7] = Inr [None, None] \<and>
   isl (field_synth 1 [1, 2] [5, 7, 9]) \<and>
   isl (field_synth 1 [] [])"
proof -
  have h: "[0, 0 :: real] \<noteq> [] \<and> Max (set (map abs [0, 0 :: real])) = 0 \<and>
      length [0, 0 :: real] = length [5, 7 :: real]"
    by simp
  have "field_synth 1 [0, 0] [5, 7] = Inr (replicate (length [0, 0 :: real]) None)"
    using field_synth_failure [of 1 "[0, 0]" "[5, 7]"] h by blast
  then have "field_synth 1 [0, 0] [5, 7] = Inr [None, None]"
    by (simp add: numeral_2_eq_2)
  moreover have "isl (field_synth 1 [1, 2] [5, 7, 9])"
    using field_synth_failure [of 1 "[1, 2]" "[5, 7, 9]"] by simp
  moreover have "isl (field_synth 1 [] [])"
    using field_synth_failure [of 1 "[]" "[]"] by simp
  ultimately show ?thesis using h by blast
qed

text \<open>
  An all-zero amplitude array gives a result (of non-finite entries) and not a failure;
  arrays of lengths 1 and 2 are broadcast and give a result as well.
\<close>

theorem field_synth_no_failure_counterexample:
  "Max (set (map abs [0, 0 :: real])) = 0 \<and>
   field_synth 1 [0, 0] [5, 7] = Inr [None, None] \<and>
   length [1 :: real] \<noteq> length [0, 0 :: real] \<and>
   field_synth 1 [1] [0, 0] = Inr [Some 1, Some 1]"
proof -
  have a: "field_synth 1 [0, 0] [5, 7] = Inr [None, None]"
    by (simp add: field_synth_def beam_sim_def amplitude_def np_broadcast2_def p_sim_def)
  have "np_mod 0 (2 * pi) = 0" by (simp add: np_mod_def)
  then have p: "p_sim 1 [0, 0] = [0, 0]"
    by (simp add: p_sim_def np_mean_def)
  have n: "1 + noise \<noteq> 0" using noise_pos by linarith
  have amp: "amplitude [1] = Inr [Some 1]"
    using n by (simp add: amplitude_def Let_def)
  have b: "field_synth 1 [1] [0, 0] = Inr [Some 1, Some 1]"
    by (simp add: field_synth_def beam_sim_def amp p np_broadcast2_def)
  from a b show ?thesis by simp
qed

subsection \<open>Normalisation of the synthesised field\<close>

lemma Max_abs_pos:
  assumes "\<exists>v\<in>set A. v \<noteq> (0::real)"
  shows "0 < Max (set (map abs A))"
proof -
  from assms obtain v where v: "v \<in> set A" "v \<noteq> 0" by blast
  then have "\<bar>v\<bar> \<in> set (map abs A)" by simp
  then have "\<bar>v\<bar> \<le> Max (set (map abs A))" by (intro Max_ge finite_set)
  with v(2) show ?thesis by linarith
qed

lemma Max_abs_bounds:
  fixes v :: real
  assumes "v \<in> set A"
  shows "- Max (set (map abs A)) \<le> v" "v \<le> Max (set A)" "Max (set A) \<le> Max (set (map abs A))"
proof -
  have ne: "A \<noteq> []" using assms by auto
  have "\<bar>v\<bar> \<in> set (map abs A)" using assms by simp
  then have "\<bar>v\<bar> \<le> Max (set (map abs A))" by (intro Max_ge finite_set)
  then have "- v \<le> Max (set (map abs A))" by (rule abs_le_D2)
  then show "- Max (set (map abs A)) \<le> v" by (rule minus_le_iff [THEN iffD1])
  show "v \<le> Max (set A)" using assms by (intro Max_ge finite_set)
  have "Max (set A) \<in> set A" using ne by (intro Max_in) simp_all
  then have "\<bar>Max (set A)\<bar> \<in> set (map abs A)" by simp
  then have "\<bar>Max (set A)\<bar> \<le> Max (set (map abs A))" by (intro Max_ge finite_set)
  then show "Max (set A) \<le> Max (set (map abs A))" by (rule abs_le_D1)
qed

lemma np_max_shifted:
  assumes "A \<noteq> []" "0 < m"
  shows "np_max (map (\<lambda>v. v / m + noise) A) = Inr (Max (set A) / m + noise)"
proof -
  let ?a2 = "map (\<lambda>v. v / m + noise) A"
  have "Max (set ?a2) = Max (set A) / m + noise"
  proof (rule Max_eqI)
    show "finite (set ?a2)" by simp
    show "y \<le> Max (set A) / m + noise" if "y \<in> set ?a2" for y
    proof -
      from that obtain u where u: "u \<in> set A" "y = u / m + noise" by auto
      have "u \<le> Max (set A)" using u(1) by (intro Max_ge finite_set)
      then have "u / m \<le> Max (set A) / m" using assms(2) by (simp add: divide_right_mono)
      with u(2) show ?thesis by simp
    qed
    have "Max (set A) \<in> set A" using assms(1) by (intro Max_in) simp_all
    then show "Max (set A) / m + noise \<in> set ?a2" by (auto simp: image_iff)
  qed
  moreover have "?a2 \<noteq> []" using assms(1) by simp
  ultimately show ?thesis using np_max_Inr [of ?a2] by simp
qed

lemma amplitude_general:
  assumes nz: "\<exists>v\<in>set A. v \<noteq> 0"
  shows "amplitude A =
           (if Max (set A) / Max (set (map abs A)) + noise = 0 then Inr (map (\<lambda>v. None) A)
            else Inr (map (\<lambda>v. Some ((v / Max (set (map abs A)) + noise) /
                                     (Max (set A) / Max (set (map abs A)) + noise))) A))"
proof -
  define m where "m = Max (set (map abs A))"
  from nz have ne: "A \<noteq> []" by auto
  have pos: "0 < m" unfolding m_def using nz by (rule Max_abs_pos)
  have m: "np_max (map abs A) = Inr m"
    unfolding m_def using ne np_max_Inr [of "map abs A"] by simp
  have m2: "np_max (map (\<lambda>v. v / m + noise) A) = Inr (Max (set A) / m + noise)"
    using ne pos by (rule np_max_shifted)
  have "amplitude A =
      (if Max (set A) / m + noise = 0 then Inr (map (\<lambda>v. None) A)
       else Inr (map (\<lambda>v. Some ((v / m + noise) / (Max (set A) / m + noise))) A))"
    unfolding amplitude_def m using pos by (simp add: Let_def m2 comp_def)
  then show ?thesis unfolding m_def .
qed

lemma cmod_polar: "cmod (complex_of_real r * exp (\<i> * complex_of_real ph)) = \<bar>r\<bar>"
  by (simp add: norm_mult)

lemma field_synth_general:
  assumes nz: "\<exists>v\<in>set A. v \<noteq> 0" and len: "length A = length P"
  shows "Max (set A) / Max (set (map abs A)) + noise = 0 \<Longrightarrow>
           field_synth k A P = Inr (map (\<lambda>v. None) A)"
    and "Max (set A) / Max (set (map abs A)) + noise \<noteq> 0 \<Longrightarrow>
           \<exists>f. field_synth k A P = Inr (map Some f) \<and> length f = length A \<and>
             map cmod f =
               map (\<lambda>v. \<bar>(v / Max (set (map abs A)) + noise) /
                         (Max (set A) / Max (set (map abs A)) + noise)\<bar>) A"
proof -
  let ?m = "Max (set (map abs A))"
  let ?M2 = "Max (set A) / ?m + noise"
  have lp: "length (p_sim k P) = length A" using len by (simp add: length_p_sim)
  show "field_synth k A P = Inr (map (\<lambda>v. None) A)" if "?M2 = 0"
  proof -
    have amp: "amplitude A = Inr (map (\<lambda>v. None) A)"
      using amplitude_general [OF nz] that by simp
    show ?thesis
      unfolding field_synth_def beam_sim_def amp np_broadcast2_def
      using lp by (simp add: map_replicate_const zip_replicate1 comp_def)
  qed
  show "\<exists>f. field_synth k A P = Inr (map Some f) \<and> length f = length A \<and>
      map cmod f = map (\<lambda>v. \<bar>(v / ?m + noise) / ?M2\<bar>) A" if "?M2 \<noteq> 0"
  proof -
    let ?g = "\<lambda>v. (v / ?m + noise) / ?M2"
    let ?f = "map (\<lambda>(v, ph). complex_of_real (?g v) * exp (\<i> * complex_of_real ph))
                (zip A (p_sim k P))"
    have amp: "amplitude A = Inr (map (\<lambda>v. Some (?g v)) A)"
      using amplitude_general [OF nz] that by simp
    have res: "field_synth k A P = Inr (map Some ?f)"
      unfolding field_synth_def beam_sim_def amp np_broadcast2_def
      using lp by (simp add: zip_map1 comp_def case_prod_beta)
    have "map cmod ?f = map (\<lambda>(v, ph). \<bar>?g v\<bar>) (zip A (p_sim k P))"
      by (simp add: case_prod_beta cmod_polar del: of_real_divide of_real_add)
    also have "\<dots> = map (\<lambda>v. \<bar>?g v\<bar>) (map fst (zip A (p_sim k P)))"
      by (simp add: case_prod_beta comp_def)
    also have "\<dots> = map (\<lambda>v. \<bar>?g v\<bar>) A"
      using lp by (simp only: map_fst_zip)
    finally have mags: "map cmod ?f = map (\<lambda>v. \<bar>?g v\<bar>) A" .
    have "length ?f = length A" using lp by simp
    with res mags show ?thesis by blast
  qed
qed




text \<open>
  Over the real numbers the condition on the amplitudes is also necessary for a unit
  peak without zero samples.
\<close>

lemma unit_peak_condition_necessary:
  assumes nonzero: "\<exists>v\<in>set A. v \<noteq> 0"
    and len: "length A = length P"
    and res: "field_synth k A P = Inr (map Some f)"
    and peak: "Max (set (map cmod f)) = 1"
    and nz: "\<forall>z\<in>set f. cmod z \<noteq> 0"
  shows "((1 - 2 * noise) * Max (set (map abs A)) \<le> Max (set A) \<or> (\<forall>v\<in>set A. v = hd A)) \<and>
         (\<forall>v\<in>set A. v \<noteq> - noise * Max (set (map abs A)))"
proof -
  define m where "m = Max (set (map abs A))"
  define h where "h = Max (set A)"
  define M2 where "M2 = h / m + noise"
  let ?g = "\<lambda>v. \<bar>(v / m + noise) / M2\<bar>"
  have ne: "A \<noteq> []" using nonzero by auto
  have pos: "0 < m" unfolding m_def using nonzero by (rule Max_abs_pos)
  have hin: "h \<in> set A" unfolding h_def using ne by (intro Max_in) simp_all
  have bounds: "- m \<le> v" "v \<le> h" "h \<le> m" if "v \<in> set A" for v
    using Max_abs_bounds [OF that] by (simp_all add: m_def h_def)
  have M2: "M2 \<noteq> 0"
  proof
    assume "M2 = 0"
    then have "field_synth k A P = Inr (map (\<lambda>v. None) A)"
      using field_synth_general(1) [OF nonzero len, of k] by (simp add: M2_def h_def m_def)
    with res have "map Some f = map (\<lambda>v. None) A" by simp
    then have "length f = length A" "\<forall>i<length f. Some (f ! i) = None"
      by (metis length_map, metis length_map nth_map)
    with ne show False by (cases f) auto
  qed
  obtain f' where f': "field_synth k A P = Inr (map Some f')" "map cmod f' = map ?g A"
    using field_synth_general(2) [OF nonzero len, of k] M2
    unfolding M2_def h_def m_def by blast
  from res f'(1) have "map Some f = map Some f'" by simp
  then have "f = f'" by (simp add: inj_map_eq_map)
  with f'(2) have mags: "map cmod f = map ?g A" by simp
  have g_le: "?g v \<le> 1" if "v \<in> set A" for v
  proof -
    have "?g v \<in> set (map cmod f)" unfolding mags set_map using that by (rule imageI)
    then have "?g v \<le> Max (set (map cmod f))" by (intro Max_ge finite_set)
    with peak show ?thesis by simp
  qed
  have g_nz: "?g v \<noteq> 0" if "v \<in> set A" for v
  proof -
    have "?g v \<in> set (map cmod f)" unfolding mags set_map using that by (rule imageI)
    then obtain z where "z \<in> set f" "cmod z = ?g v" by auto
    with nz show ?thesis by metis
  qed
  have floor: "\<forall>v\<in>set A. v \<noteq> - noise * m"
  proof
    fix v assume v: "v \<in> set A"
    show "v \<noteq> - noise * m"
    proof
      assume "v = - noise * m"
      then have "v / m + noise = 0" using pos by simp
      then have "?g v = 0" by simp
      with g_nz [OF v] show False by simp
    qed
  qed
  have top: "(1 - 2 * noise) * m \<le> h \<or> (\<forall>v\<in>set A. v = hd A)"
  proof (rule disjCI)
    assume nc: "\<not> (\<forall>v\<in>set A. v = hd A)"
    show "(1 - 2 * noise) * m \<le> h"
    proof (rule ccontr)
      assume "\<not> (1 - 2 * noise) * m \<le> h"
      then have small: "h / m < 1 - 2 * noise" using pos by (simp add: pos_divide_less_eq)
      have "m \<in> set (map abs A)"
        unfolding m_def using ne by (intro Max_in) simp_all
      then obtain u where u: "u \<in> set A" "\<bar>u\<bar> = m" by auto
      have "u \<noteq> m"
      proof
        assume "u = m"
        then have "m \<le> h" using bounds(2) [OF u(1)] by simp
        then have "1 \<le> h / m" using pos by (simp add: pos_le_divide_eq)
        with small noise_pos show False by linarith
      qed
      with u(2) have um: "u = - m" by linarith
      have "\<bar>u / m + noise\<bar> \<le> \<bar>M2\<bar>"
        using g_le [OF u(1)] M2 by (simp add: abs_divide)
      moreover have "u / m = - 1" using um pos by simp
      ultimately have "1 - noise \<le> \<bar>h / m + noise\<bar>"
        using noise_pos by (simp add: M2_def noise_def)
      with small have "h / m \<le> - 1" using noise_pos by linarith
      then have "h \<le> - m" using pos by (simp add: pos_divide_le_eq)
      then have "v = - m" if "v \<in> set A" for v
        using bounds(1,2) [OF that] by linarith
      then have "\<forall>v\<in>set A. v = hd A" using ne by (metis hd_in_set)
      with nc show False by simp
    qed
  qed
  from top floor show ?thesis by (simp add: m_def h_def)
qed



subsection \<open>The beam-width extraction against its contract\<close>

lemma grid_shape_row: "grid_shape m R C \<Longrightarrow> i < R \<Longrightarrow> length (m ! i) = C"
  by (simp add: grid_shape_def list_all_length)

lemma where_pairs_product:
  assumes "grid_shape b R C"
  shows "where_pairs b = filter (\<lambda>(i, j). b ! i ! j) (List.product [0..<R] [0..<C])"
proof -
  have len: "length b = R" using assms by (simp add: grid_shape_def)
  have "filter (\<lambda>(i, j). b ! i ! j) (List.product [0..<R] [0..<C]) =
      concat (map (\<lambda>i. map (Pair i) (filter (\<lambda>j. b ! i ! j) [0..<C])) [0..<R])"
    by (simp add: product_concat_map filter_concat filter_map comp_def)
  also have "\<dots> = concat (map (\<lambda>i. map (Pair i) (np_where (b ! i))) [0..<R])"
  proof -
    have "map (\<lambda>i. map (Pair i) (filter (\<lambda>j. b ! i ! j) [0..<C])) [0..<R] =
        map (\<lambda>i. map (Pair i) (np_where (b ! i))) [0..<R]"
      by (rule map_cong [OF refl]) (simp add: np_where_def grid_shape_row [OF assms])
    then show ?thesis by (rule arg_cong)
  qed
  finally show ?thesis by (simp add: where_pairs_def len)
qed

lemma find_filter:
  "find P xs = (case filter P xs of [] \<Rightarrow> None | x # _ \<Rightarrow> Some x)"
  by (induction xs) simp_all

lemma filter_upt_first:
  assumes "filter Q [0..<n] \<noteq> []"
  shows "hd (filter Q [0..<n]) < n" "Q (hd (filter Q [0..<n]))"
    "j < hd (filter Q [0..<n]) \<Longrightarrow> \<not> Q j"
proof -
  let ?idx = "filter Q [0..<n]"
  from assms have "hd ?idx \<in> set ?idx" by (rule hd_in_set)
  then have "hd ?idx \<in> {i \<in> set [0..<n]. Q i}" by (simp only: set_filter)
  then show "hd ?idx < n" "Q (hd ?idx)" by simp_all
  have s: "sorted ?idx" by (simp add: sorted_wrt_filter)
  show "\<not> Q j" if "j < hd ?idx"
  proof
    assume "Q j"
    with that \<open>hd ?idx < n\<close> have "j \<in> set ?idx" by simp
    moreover obtain k ks where "?idx = k # ks" using assms by (cases ?idx) auto
    ultimately have "hd ?idx \<le> j" using s by auto
    with that show False by simp
  qed
qed

lemma filter_upt_last:
  assumes "filter Q [0..<n] \<noteq> []"
  shows "last (filter Q [0..<n]) < n" "Q (last (filter Q [0..<n]))"
    "last (filter Q [0..<n]) < j \<Longrightarrow> j < n \<Longrightarrow> \<not> Q j"
proof -
  let ?idx = "filter Q [0..<n]"
  from assms have "last ?idx \<in> set ?idx" by (rule last_in_set)
  then have "last ?idx \<in> {i \<in> set [0..<n]. Q i}" by (simp only: set_filter)
  then show "last ?idx < n" "Q (last ?idx)" by simp_all
  have s: "sorted ?idx" by (simp add: sorted_wrt_filter)
  show "\<not> Q j" if "last ?idx < j" "j < n"
  proof
    assume "Q j"
    with that have "j \<in> set ?idx" by simp
    then obtain k where k: "k < length ?idx" "?idx ! k = j" by (metis in_set_conv_nth)
    then have "?idx ! k \<le> ?idx ! (length ?idx - 1)"
      using s by (intro sorted_nth_mono) auto
    then have "j \<le> last ?idx" using k assms by (simp add: last_conv_nth)
    with that show False by simp
  qed
qed

lemma find_zip_first:
  assumes len: "length th = length ys" and ne: "filter (\<lambda>i. Q (ys ! i)) [0..<length ys] \<noteq> []"
  shows "find (\<lambda>(t, y). Q y) (zip th ys) =
           Some (th ! hd (filter (\<lambda>i. Q (ys ! i)) [0..<length ys]),
                 ys ! hd (filter (\<lambda>i. Q (ys ! i)) [0..<length ys]))"
proof -
  let ?k = "hd (filter (\<lambda>i. Q (ys ! i)) [0..<length ys])"
  note f = filter_upt_first [OF ne]
  have nth: "zip th ys ! j = (th ! j, ys ! j)" if "j < length ys" for j
    using that len by simp
  show ?thesis
  proof (rule iffD2 [OF find_Some_iff], intro exI [of _ ?k] conjI allI impI)
    show "?k < length (zip th ys)" using f(1) len by simp
    show "case zip th ys ! ?k of (t, y) \<Rightarrow> Q y"
      unfolding nth [OF f(1)] using f(2) by simp
    show "(th ! ?k, ys ! ?k) = zip th ys ! ?k"
      unfolding nth [OF f(1)] ..
    fix j assume j: "j < ?k"
    then have "j < length ys" using f(1) by linarith
    moreover have "\<not> Q (ys ! j)" using j by (rule f(3))
    ultimately show "\<not> (case zip th ys ! j of (t, y) \<Rightarrow> Q y)"
      by (simp add: nth)
  qed
qed

lemma find_zip_last:
  assumes len: "length th = length ys" and ne: "filter (\<lambda>i. Q (ys ! i)) [0..<length ys] \<noteq> []"
  shows "find (\<lambda>(t, y). Q y) (rev (zip th ys)) =
           Some (th ! last (filter (\<lambda>i. Q (ys ! i)) [0..<length ys]),
                 ys ! last (filter (\<lambda>i. Q (ys ! i)) [0..<length ys]))"
proof -
  let ?n = "length ys"
  let ?k = "last (filter (\<lambda>i. Q (ys ! i)) [0..<?n])"
  let ?zs = "zip th ys"
  note f = filter_upt_last [OF ne]
  have lz: "length ?zs = ?n" using len by simp
  have nth: "rev ?zs ! j = (th ! (?n - Suc j), ys ! (?n - Suc j))" if "j < ?n" for j
    using that len by (simp add: rev_nth)
  let ?i = "?n - Suc ?k"
  have i: "?i < ?n" "?n - Suc ?i = ?k" using f(1) by linarith+
  show ?thesis
  proof (rule iffD2 [OF find_Some_iff], intro exI [of _ ?i] conjI allI impI)
    show "?i < length (rev ?zs)" using i(1) lz by simp
    show "case rev ?zs ! ?i of (t, y) \<Rightarrow> Q y"
      unfolding nth [OF i(1)] i(2) using f(2) by simp
    show "(th ! ?k, ys ! ?k) = rev ?zs ! ?i"
      unfolding nth [OF i(1)] i(2) ..
    fix j assume j: "j < ?i"
    then have b: "?k < ?n - Suc j" "?n - Suc j < ?n" "j < ?n" by linarith+
    have "\<not> Q (ys ! (?n - Suc j))" using b(1,2) by (rule f(3))
    then show "\<not> (case rev ?zs ! j of (t, y) \<Rightarrow> Q y)"
      unfolding nth [OF b(3)] by simp
  qed
qed

lemma arcmin_spec: "arcmin v = spec_rad_to_arcmin v"
  by (simp add: arcmin_def spec_rad_to_arcmin_def)

lemma ne_if_mem: "x \<in> set xs \<Longrightarrow> xs \<noteq> []"
  by (cases xs) simp_all

lemma cut_fwhm_spec:
  assumes len: "length xc = length ac"
    and nonneg: "\<forall>v\<in>set ac. 0 \<le> v"
    and mx: "m \<in> set ac" "\<forall>v\<in>set ac. v \<le> m" and pos: "0 < m"
  shows "\<exists>w. cut_fwhm xc ac m = Inr w \<and> spec_cut_fwhm xc ac = Some w"
proof -
  let ?n = "length ac"
  let ?ys = "map (\<lambda>v. v / m) ac"
  let ?Q = "\<lambda>y::real. 1 / 2 < y"
  let ?idx = "filter (\<lambda>i. ?Q (?ys ! i)) [0..<length ?ys]"
  have Max: "Max (set ac) = m"
    using mx by (intro Max_eqI) simp_all
  have idx: "np_where (map (\<lambda>v. exceeds_half \<bar>v\<bar> m) ac) = ?idx"
    unfolding np_where_def
  proof (rule filter_cong)
    show "[0..<length (map (\<lambda>v. exceeds_half \<bar>v\<bar> m) ac)] = [0..<length ?ys]" by simp
    fix i assume "i \<in> set [0..<length ?ys]"
    then have i: "i < ?n" by simp
    then have "0 \<le> ac ! i" using nonneg by simp
    then show "map (\<lambda>v. exceeds_half \<bar>v\<bar> m) ac ! i = ?Q (?ys ! i)"
      using i pos by (simp add: exceeds_half_def)
  qed
  from mx(1) obtain k where k: "k < ?n" "ac ! k = m" by (metis in_set_conv_nth)
  then have "?Q (?ys ! k)" using pos by simp
  with k(1) have "k \<in> set ?idx" by simp
  then have ne: "?idx \<noteq> []" by (rule ne_if_mem)
  have bnd: "list_all (\<lambda>i. i < length xc) ?idx"
    using len by (simp add: list_all_iff)
  have code: "cut_fwhm xc ac m = Inr \<bar>arcmin (xc ! hd ?idx) - arcmin (xc ! last ?idx)\<bar>"
    unfolding cut_fwhm_eq idx Let_def using bnd ne by simp
  have len': "length xc = length ?ys" using len by simp
  have "spec_cut_fwhm xc ac =
      Some \<bar>spec_rad_to_arcmin (xc ! hd ?idx) - spec_rad_to_arcmin (xc ! last ?idx)\<bar>"
    unfolding spec_cut_fwhm_def Max Let_def
      find_zip_first [of xc ?ys ?Q, OF len' ne] find_zip_last [of xc ?ys ?Q, OF len' ne]
    by simp
  with code show ?thesis by (simp add: arcmin_spec)
qed

lemma grid_entry_in_concat:
  assumes "grid_shape m R C" "i < R" "j < C"
  shows "m ! i ! j \<in> set (concat m)"
proof -
  have "m ! i \<in> set m" using assms by (simp add: grid_shape_def)
  moreover have "m ! i ! j \<in> set (m ! i)"
    using assms grid_shape_row [OF assms(1,2)] by simp
  ultimately show ?thesis unfolding set_concat by blast
qed

lemma map_abs_nonneg: "\<forall>v\<in>set xs. (0::real) \<le> v \<Longrightarrow> map abs xs = xs"
  by (induction xs) simp_all

lemma np_col_grid:
  assumes "grid_shape m R C" "0 < R" "c < C"
  shows "np_col m c = Inr (map (\<lambda>row. row ! c) m)"
  using assms by (auto simp: np_col_def grid_shape_def list_all_iff)

lemma peak_index_spec:
  assumes sa: "grid_shape a R C"
    and nonneg: "\<forall>v\<in>set (concat a). 0 \<le> v" and ne: "concat a \<noteq> []"
  shows "\<exists>r c. peak_index a = Inr (r, c) \<and> spec_peak a = Some (r, c) \<and> r < R \<and> c < C \<and>
           a ! r ! c = Max (set (concat a))"
proof -
  let ?m = "Max (set (concat a))"
  let ?b = "map (map (\<lambda>v. \<bar>v\<bar> = ?m)) a"
  let ?ps = "where_pairs ?b"
  let ?grid = "List.product [0..<R] [0..<C]"
  have abs: "map abs (concat a) = concat a"
    using nonneg by (rule map_abs_nonneg)
  have len: "length a = R" using sa by (simp add: grid_shape_def)
  from ne have "a \<noteq> []" by auto
  then have R: "0 < R" using len by auto
  have C: "length (hd a) = C"
    using grid_shape_row [OF sa R] \<open>a \<noteq> []\<close> by (simp add: hd_conv_nth)
  have sb: "grid_shape ?b R C"
    using sa by (simp add: grid_shape_def list_all_iff)
  have ps: "?ps = filter (\<lambda>(i, j). a ! i ! j = ?m) ?grid"
    unfolding where_pairs_product [OF sb]
  proof (rule filter_cong [OF refl])
    fix p assume "p \<in> set ?grid"
    then obtain i j where p: "p = (i, j)" "i < R" "j < C" by auto
    have "0 \<le> a ! i ! j"
      using nonneg grid_entry_in_concat [OF sa p(2,3)] by blast
    then show "(case p of (i, j) \<Rightarrow> ?b ! i ! j) = (case p of (i, j) \<Rightarrow> a ! i ! j = ?m)"
      using p len grid_shape_row [OF sa p(2)] by simp
  qed
  have pe: "?ps \<noteq> []" "peak_index a = Inr (hd ?ps)"
    using peak_index_eq [OF ne] unfolding abs by simp_all
  then obtain p rest where cons: "?ps = p # rest" by (cases ?ps) auto
  obtain row0 rest0 where a: "a = row0 # rest0" using \<open>a \<noteq> []\<close> by (cases a) auto
  have "spec_peak a =
      find (\<lambda>(i, j). a ! i ! j = ?m) (List.product [0..<length a] [0..<length (hd a)])"
    by (simp add: spec_peak_def a)
  then have sp: "spec_peak a = Some (hd ?ps)"
    unfolding len C find_filter ps [symmetric] cons by simp
  from pe(1) have "hd ?ps \<in> set ?ps" by (rule hd_in_set)
  then have "hd ?ps \<in> set (filter (\<lambda>(i, j). a ! i ! j = ?m) ?grid)"
    by (simp only: ps)
  then have "fst (hd ?ps) < R \<and> snd (hd ?ps) < C \<and> a ! fst (hd ?ps) ! snd (hd ?ps) = ?m"
    by (auto simp: case_prod_beta)
  with pe(2) sp show ?thesis by (metis prod.collapse)
qed

text \<open>
  Claim C1. For every far-field intensity map (nonnegative entries with a positive peak,
  as a squared magnitude normalised to its peak is) and two angular coordinate arrays of
  the same shape, the extraction returns what the contract describes: the peak is the
  first index of the global maximum in row-major order, the row and the column through
  it are cut, each cut's width is the absolute difference of the coordinates, in
  arcminutes, of the leftmost and rightmost samples whose normalised intensity exceeds
  0.5, and the result is the average of the two widths.
\<close>

theorem fwhm_refines_spec:
  assumes sa: "grid_shape a R C" and sx: "grid_shape x_ang R C" and sy: "grid_shape y_ang R C"
    and nonneg: "\<forall>v\<in>set (concat a). 0 \<le> v" and peak: "\<exists>v\<in>set (concat a). 0 < v"
  shows "\<exists>w. fwhm a x_ang y_ang = Inr w \<and> spec_fwhm a x_ang y_ang = Some w"
proof -
  let ?m = "Max (set (concat a))"
  from peak obtain v where v: "v \<in> set (concat a)" "0 < v" by blast
  from v(1) have ne: "concat a \<noteq> []" by (rule ne_if_mem)
  have "v \<le> ?m" using v(1) by (intro Max_ge finite_set)
  with v have pos: "0 < ?m" by linarith
  have abs: "map abs (concat a) = concat a"
    using nonneg by (rule map_abs_nonneg)
  have mx: "np_max (map abs (concat a)) = Inr ?m"
    unfolding abs using ne by (rule np_max_Inr)
  obtain r c where pk: "peak_index a = Inr (r, c)" "spec_peak a = Some (r, c)"
    and r: "r < R" and c: "c < C" and top: "a ! r ! c = ?m"
    using peak_index_spec [OF sa nonneg ne] by blast
  have R: "0 < R" using r by simp
  have lens: "length a = R" "length x_ang = R" "length y_ang = R"
    using sa sx sy by (simp_all add: grid_shape_def)
  have le: "a ! i ! j \<le> ?m" and ge: "0 \<le> a ! i ! j" if "i < R" "j < C" for i j
  proof -
    have mem: "a ! i ! j \<in> set (concat a)" using sa that by (rule grid_entry_in_concat)
    then show "a ! i ! j \<le> ?m" by (intro Max_ge finite_set)
    from mem nonneg show "0 \<le> a ! i ! j" by blast
  qed
  have row_len: "length (a ! r) = C" "length (x_ang ! r) = C"
    using grid_shape_row [OF sa r] grid_shape_row [OF sx r] by simp_all
  have row_all: "0 \<le> u \<and> u \<le> ?m" if "u \<in> set (a ! r)" for u
  proof -
    from that obtain j where "j < C" "a ! r ! j = u"
      unfolding in_set_conv_nth row_len by blast
    then show ?thesis using le [OF r] ge [OF r] by blast
  qed
  have row_top: "?m \<in> set (a ! r)"
    using c top row_len by (metis nth_mem)
  obtain w1 where w1: "cut_fwhm (x_ang ! r) (a ! r) ?m = Inr w1"
      "spec_cut_fwhm (x_ang ! r) (a ! r) = Some w1"
    using cut_fwhm_spec [of "x_ang ! r" "a ! r" ?m] row_len row_all row_top pos by auto
  let ?ac = "map (\<lambda>row. row ! c) a"
  let ?xc = "map (\<lambda>row. row ! c) y_ang"
  have col_all: "0 \<le> u \<and> u \<le> ?m" if "u \<in> set ?ac" for u
  proof -
    from that obtain i where "i < R" "a ! i ! c = u"
      unfolding in_set_conv_nth using lens by auto
    then show ?thesis using le [OF _ c] ge [OF _ c] by blast
  qed
  have col_top: "?m \<in> set ?ac"
  proof -
    have "?ac ! r = ?m" using r lens top by simp
    moreover have "r < length ?ac" using r lens by simp
    ultimately show ?thesis by (metis nth_mem)
  qed
  obtain w2 where w2: "cut_fwhm ?xc ?ac ?m = Inr w2" "spec_cut_fwhm ?xc ?ac = Some w2"
    using cut_fwhm_spec [of ?xc ?ac ?m] lens col_all col_top pos by auto
  have rows: "np_row x_ang r = Inr (x_ang ! r)" "np_row a r = Inr (a ! r)"
    using r lens by (simp_all add: np_row_def)
  have cols: "np_col y_ang c = Inr ?xc" "np_col a c = Inr ?ac"
    using np_col_grid [OF sy R c] np_col_grid [OF sa R c] by simp_all
  have "fwhm a x_ang y_ang = Inr ((w1 + w2) / 2)"
    by (simp only: fwhm_def Let_def mx pk rows cols w1 w2 sum.case prod.case)
  moreover have "spec_fwhm a x_ang y_ang = Some ((w1 + w2) / 2)"
    by (simp only: spec_fwhm_def pk w1 w2 option.case prod.case)
  ultimately show ?thesis by blast
qed

theorem fwhm_refines_spec_witness:
  "fwhm ex_tie_map ex_x_ang ex_y_ang = Inr (5400 / pi) \<and>
   spec_fwhm ex_tie_map ex_x_ang ex_y_ang = Some (5400 / pi) \<and>
   peak_index ex_tie_map = Inr (0, 1)"
proof -
  have shp: "grid_shape ex_tie_map 3 3" "grid_shape ex_x_ang 3 3" "grid_shape ex_y_ang 3 3"
    by (simp_all add: grid_shape_def ex_tie_map_def ex_x_ang_def ex_y_ang_def)
  have nonneg: "\<forall>v\<in>set (concat ex_tie_map). 0 \<le> v"
    by (simp add: ex_tie_map_def)
  have pos: "\<exists>v\<in>set (concat ex_tie_map). 0 < v"
    by (simp add: ex_tie_map_def)
  have mx: "np_max (map abs (concat ex_tie_map)) = Inr 1"
    by (simp add: ex_tie_map_def)
  have pk: "peak_index ex_tie_map = Inr (0, 1)"
    by (simp add: ex_tie_map_def peak_index_def peak_where_def np_where2_def np_where_def
        py_first_def)
  have rows: "np_row ex_x_ang 0 = Inr [-1, 0, 1]" "np_row ex_tie_map 0 = Inr [1/10, 1, 3/5]"
    by (simp_all add: np_row_def ex_x_ang_def ex_tie_map_def)
  have cols: "np_col ex_y_ang 1 = Inr [-1, 0, 1]" "np_col ex_tie_map 1 = Inr [1, 1/5, 1/10]"
    by (simp_all add: np_col_def ex_y_ang_def ex_tie_map_def)
  have idx: "np_where [False, True, True] = [1, 2]" "np_where [True, False, False] = [0]"
    by (simp_all add: np_where_def)
  have cut1: "cut_fwhm [-1, 0, 1] [1/10, 1, 3/5] 1 = Inr (10800 / pi)"
    by (simp add: cut_fwhm_def exceeds_half_def idx np_take_def py_first_def py_last_def
        arcmin_def)
  have cut2: "cut_fwhm [-1, 0, 1] [1, 1/5, 1/10] 1 = Inr 0"
    by (simp add: cut_fwhm_def exceeds_half_def idx np_take_def py_first_def py_last_def)
  have code: "fwhm ex_tie_map ex_x_ang ex_y_ang = Inr (5400 / pi)"
    by (simp only: fwhm_def Let_def mx pk rows cols cut1 cut2 sum.case prod.case) simp
  from fwhm_refines_spec [OF shp nonneg pos] obtain w where
    "fwhm ex_tie_map ex_x_ang ex_y_ang = Inr w" "spec_fwhm ex_tie_map ex_x_ang ex_y_ang = Some w"
    by blast
  with code have "spec_fwhm ex_tie_map ex_x_ang ex_y_ang = Some (5400 / pi)" by simp
  with code pk show ?thesis by blast
qed

subsection \<open>Angular axes\<close>

text \<open>
  Claim C2. The angular axis of \<open>N\<close> samples at spacing \<open>\<Delta>\<close> has \<open>N\<close> entries; entry
  \<open>i\<close> is the frequency \<open>k / (N \<Delta>)\<close>, with \<open>k = i - N div 2\<close> running from
  \<open>- (N div 2)\<close> to \<open>(N - 1) div 2\<close> around the zero at index \<open>N div 2\<close>, times the
  wavelength; and the notebook's conversion of an angle to arcminutes
  (\<^verbatim>\<open>* 60 * 180 / np.pi\<close>) is the multiplication by \<open>(180 / \<pi>) \<times> 60\<close>.
\<close>

theorem coords_spat_to_ang_axis:
  assumes "i < N"
  shows "length (coords_spat_to_ang N \<Delta> lam) = N \<and>
         coords_spat_to_ang N \<Delta> lam ! i =
           real_of_int (int i - int (N div 2)) / (real N * \<Delta>) * lam \<and>
         - int (N div 2) \<le> int i - int (N div 2) \<and>
         int i - int (N div 2) \<le> int ((N - 1) div 2) \<and>
         coords_spat_to_ang N \<Delta> lam ! (N div 2) = 0 \<and>
         arcmin (coords_spat_to_ang N \<Delta> lam ! i) =
           coords_spat_to_ang N \<Delta> lam ! i * (180 / pi) * 60"
proof -
  have "N div 2 < N" using assms by simp
  then have "coords_spat_to_ang N \<Delta> lam ! (N div 2) = 0"
    by (simp add: coords_spat_to_ang_def spatial_frequency_axis_def)
  moreover have "coords_spat_to_ang N \<Delta> lam ! i =
      real_of_int (int i - int (N div 2)) / (real N * \<Delta>) * lam"
    using assms by (simp add: coords_spat_to_ang_def spatial_frequency_axis_def)
  moreover have "int i - int (N div 2) \<le> int ((N - 1) div 2)"
    using assms by linarith
  moreover have "arcmin v = v * (180 / pi) * 60" for v
    by (simp add: arcmin_def)
  ultimately show ?thesis
    by (simp add: coords_spat_to_ang_def spatial_frequency_axis_def)
qed

theorem coords_spat_to_ang_axis_witness:
  "(1::nat) < 4 \<and> length (coords_spat_to_ang 4 (1 / 100) (2 / 1000)) = 4 \<and>
   coords_spat_to_ang 4 (1 / 100) (2 / 1000) ! 1 = - (1 / 20) \<and>
   coords_spat_to_ang 4 (1 / 100) (2 / 1000) ! 2 = 0 \<and>
   arcmin (coords_spat_to_ang 4 (1 / 100) (2 / 1000) ! 1) = - (1 / 20) * (180 / pi) * 60"
proof -
  have h: "(1::nat) < 4" by simp
  note t = coords_spat_to_ang_axis [OF h, of "1 / 100" "2 / 1000"]
  have v: "coords_spat_to_ang 4 (1 / 100) (2 / 1000) ! 1 = - (1 / 20)"
    using t by simp
  have z: "coords_spat_to_ang 4 (1 / 100) (2 / 1000) ! 2 = 0"
    using t by simp
  have "arcmin (coords_spat_to_ang 4 (1 / 100) (2 / 1000) ! 1) =
      coords_spat_to_ang 4 (1 / 100) (2 / 1000) ! 1 * (180 / pi) * 60"
    using t by blast
  then have "arcmin (coords_spat_to_ang 4 (1 / 100) (2 / 1000) ! 1) = - (1 / 20) * (180 / pi) * 60"
    unfolding v .
  moreover have "length (coords_spat_to_ang 4 (1 / 100) (2 / 1000)) = 4"
    using t by blast
  ultimately show ?thesis using h v z by blast
qed

subsection \<open>Zero padding\<close>

lemma pad_offset_le: "pad_offset N m \<le> N - m"
  by (simp add: pad_offset_def)

lemma pad_offset_symmetric:
  "N - m - pad_offset N m = pad_offset N m \<or> N - m - pad_offset N m = pad_offset N m + 1"
  unfolding pad_offset_def by linarith

lemma length_extend_left: "x \<noteq> [] \<Longrightarrow> length (extend_left n x) = n"
  by (cases x) (simp_all add: extend_left_def)

lemma length_extend_right: "x \<noteq> [] \<Longrightarrow> length (extend_right n x) = n"
  by (simp add: extend_right_def)

lemma length_pad_axis:
  assumes "x \<noteq> []" "length x \<le> N"
  shows "length (pad_axis N x) = N"
  using assms pad_offset_le [of N "length x"]
  by (simp add: pad_axis_def Let_def length_extend_left length_extend_right)

lemma length_pad_row:
  assumes "length row \<le> N"
  shows "length (pad_row N row) = N"
  using assms pad_offset_le [of N "length row"] by (simp add: pad_row_def Let_def)

lemma pad_row_nth:
  assumes "length row \<le> N" "j < N"
  shows "pad_row N row ! j =
           (if pad_offset N (length row) \<le> j \<and> j < pad_offset N (length row) + length row
            then row ! (j - pad_offset N (length row)) else 0)"
  using assms pad_offset_le [of N "length row"]
  by (auto simp: pad_row_def Let_def nth_append)

lemma pad_axis_mid:
  assumes "x \<noteq> []" "j < length x"
  shows "pad_axis N x ! (pad_offset N (length x) + j) = x ! j"
  using assms by (simp add: pad_axis_def Let_def nth_append length_extend_left)

lemma sum_list_all_zero:
  assumes "\<forall>p\<in>set ps. f p = (0::real)"
  shows "sum_list (map f ps) = 0"
  using assms by (induction ps) simp_all

lemma weighted_zero_right:
  "sum_list (map (\<lambda>(a, v). a * cmod v) (zip xs (replicate n 0))) = 0"
proof (rule sum_list_all_zero, rule ballI)
  fix p assume "p \<in> set (zip xs (replicate n (0::complex)))"
  then have "snd p \<in> set (replicate n (0::complex))"
    by (metis prod.collapse set_zip_rightD)
  then have "snd p = 0" by simp
  then show "(case p of (a, v) \<Rightarrow> a * cmod v) = 0" by (simp add: case_prod_beta)
qed

lemma weight_zero_row: "sum_list (map cmod (replicate n 0)) = 0"
  by (rule sum_list_all_zero) simp

lemma weight_pad_row: "sum_list (map cmod (pad_row N row)) = sum_list (map cmod row)"
  by (simp add: pad_row_def Let_def sum_list_replicate)

lemma weighted_pad_row:
  assumes "x \<noteq> []" "length row = length x"
  shows "sum_list (map (\<lambda>(a, v). a * cmod v) (zip (pad_axis N x) (pad_row N row))) =
         sum_list (map (\<lambda>(a, v). a * cmod v) (zip x row))"
proof -
  let ?off = "pad_offset N (length x)"
  let ?w = "\<lambda>(a, v). a * cmod v"
  have "zip (pad_axis N x) (pad_row N row) =
      zip (extend_left ?off x) (replicate ?off 0) @ zip x row @
      zip (extend_right (N - length x - ?off) x) (replicate (N - length x - ?off) 0)"
    using assms by (simp add: pad_axis_def pad_row_def Let_def length_extend_left)
  then show ?thesis by (simp add: weighted_zero_right)
qed

lemma uniform_axis_nth:
  assumes "uniform_axis x" "i < length x"
  shows "x ! i = x ! 0 + real i * spacing x"
  using assms(2)
proof (induction i)
  case 0
  show ?case by simp
next
  case (Suc i)
  then have "x ! i = x ! 0 + real i * spacing x" by simp
  moreover have "x ! Suc i - x ! i = spacing x"
    using assms(1) Suc.prems by (simp add: uniform_axis_def list_all_iff)
  ultimately show ?case by (simp add: algebra_simps)
qed

lemma pad_axis_closed_form:
  assumes ne: "x \<noteq> []" and le: "length x \<le> N" and un: "uniform_axis x" and j: "j < N"
  shows "pad_axis N x ! j = x ! 0 + (real j - real (pad_offset N (length x))) * spacing x"
proof -
  let ?off = "pad_offset N (length x)"
  let ?C = "length x"
  let ?d = "spacing x"
  obtain x0 xs where x: "x = x0 # xs" using ne by (cases x) auto
  have off: "?off \<le> N - ?C" by (rule pad_offset_le)
  have parts: "pad_axis N x = extend_left ?off x @ x @ extend_right (N - ?C - ?off) x"
    by (simp add: pad_axis_def Let_def)
  have ll: "length (extend_left ?off x) = ?off" using ne by (rule length_extend_left)
  consider "j < ?off" | "?off \<le> j" "j < ?off + ?C" | "?off + ?C \<le> j" by linarith
  then show ?thesis
  proof cases
    case 1
    then have "pad_axis N x ! j = extend_left ?off x ! j"
      unfolding parts by (simp add: nth_append ll)
    also have "\<dots> = x ! 0 - real (?off - j) * ?d"
      using 1 by (simp add: extend_left_def x)
    also have "\<dots> = x ! 0 + (real j - real ?off) * ?d"
      using 1 by (simp add: of_nat_diff algebra_simps)
    finally show ?thesis .
  next
    case 2
    then have "j - ?off < ?C" by linarith
    with 2 have "pad_axis N x ! j = x ! (j - ?off)"
      unfolding parts by (simp add: nth_append ll)
    also have "\<dots> = x ! 0 + real (j - ?off) * ?d"
      using 2 by (intro uniform_axis_nth [OF un]) linarith
    also have "\<dots> = x ! 0 + (real j - real ?off) * ?d"
      using 2 by (simp add: of_nat_diff)
    finally show ?thesis .
  next
    case 3
    then have k: "j - ?off - ?C < N - ?C - ?off" using j off by linarith
    have "\<not> j < ?off" "\<not> j - ?off < ?C" using 3 by linarith+
    then have "pad_axis N x ! j = extend_right (N - ?C - ?off) x ! (j - ?off - ?C)"
      unfolding parts by (simp add: nth_append ll)
    also have "\<dots> = last x + real (Suc (j - ?off - ?C)) * ?d"
      using k ne by (simp add: extend_right_def)
    also have "last x = x ! 0 + real (?C - 1) * ?d"
      unfolding last_conv_nth [OF ne] using ne by (intro uniform_axis_nth [OF un]) simp
    also have "x ! 0 + real (?C - 1) * ?d + real (Suc (j - ?off - ?C)) * ?d =
        x ! 0 + (real (?C - 1) + real (Suc (j - ?off - ?C))) * ?d"
      by (simp add: algebra_simps)
    also have "real (?C - 1) + real (Suc (j - ?off - ?C)) = real j - real ?off"
    proof -
      have "0 < ?C" using ne by simp
      then have "(?C - 1) + Suc (j - ?off - ?C) + ?off = j" using 3 by linarith
      then have "real ((?C - 1) + Suc (j - ?off - ?C) + ?off) = real j" by simp
      then show ?thesis by (simp only: of_nat_add)
    qed
    finally show ?thesis .
  qed
qed

lemma pad_axis_uniform:
  assumes "x \<noteq> []" "length x \<le> N" "uniform_axis x" "Suc j < N"
  shows "pad_axis N x ! Suc j - pad_axis N x ! j = spacing x"
proof -
  have "j < N" using assms(4) by simp
  then show ?thesis
    unfolding pad_axis_closed_form [OF assms(1-3) assms(4)]
      pad_axis_closed_form [OF assms(1-3) \<open>j < N\<close>]
    by (simp add: algebra_simps)
qed

lemma weighted_zero_rows:
  "sum_list (map (\<lambda>(yi, row). yi * sum_list (map cmod row)) (zip ys (replicate n (replicate N 0)))) = 0"
proof (rule sum_list_all_zero, rule ballI)
  fix p assume "p \<in> set (zip ys (replicate n (replicate N (0::complex))))"
  then have "snd p \<in> set (replicate n (replicate N (0::complex)))"
    by (metis prod.collapse set_zip_rightD)
  then have "snd p = replicate N 0" by simp
  then show "(case p of (yi, row) \<Rightarrow> yi * sum_list (map cmod row)) = 0"
    by (simp add: case_prod_beta sum_list_replicate)
qed

lemma padded_parts:
  assumes "N \<ge> length x" "N \<ge> length y"
  shows "zero_pad x y beam N =
           Inr (pad_axis N x, pad_axis N y,
                replicate (pad_offset N (length beam)) (replicate N 0) @ map (pad_row N) beam @
                replicate (N - length beam - pad_offset N (length beam)) (replicate N 0))"
  using assms by (simp add: zero_pad_def Let_def)

lemma total_weight_padded:
  "total_weight (replicate a (replicate N 0) @ map (pad_row N) beam @ replicate b (replicate N 0)) =
     total_weight beam"
  by (simp add: total_weight_def comp_def weight_pad_row weight_zero_row sum_list_replicate)

lemma moment_x_padded:
  assumes "x \<noteq> []" "\<forall>row\<in>set beam. length row = length x"
  shows "moment_x (pad_axis N x)
           (replicate a (replicate N 0) @ map (pad_row N) beam @ replicate b (replicate N 0)) =
         moment_x x beam"
proof -
  let ?w = "\<lambda>x row. sum_list (map (\<lambda>(xj, v). xj * cmod v) (zip x row))"
  have mid: "map (\<lambda>row. ?w (pad_axis N x) (pad_row N row)) beam = map (?w x) beam"
    by (rule map_cong [OF refl]) (simp add: weighted_pad_row [OF assms(1)] assms(2))
  have "moment_x (pad_axis N x)
      (replicate a (replicate N 0) @ map (pad_row N) beam @ replicate b (replicate N 0)) =
      sum_list (map (\<lambda>row. ?w (pad_axis N x) (pad_row N row)) beam)"
    by (simp add: moment_x_def comp_def weighted_zero_right sum_list_replicate)
  then show ?thesis unfolding mid by (simp add: moment_x_def)
qed

lemma moment_y_padded:
  assumes "y \<noteq> []" "length beam = length y"
  shows "moment_y (pad_axis N y)
           (replicate (pad_offset N (length y)) (replicate N 0) @ map (pad_row N) beam @
            replicate b (replicate N 0)) =
         moment_y y beam"
proof -
  let ?off = "pad_offset N (length y)"
  let ?w = "\<lambda>(yi, row). yi * sum_list (map cmod row)"
  have "zip (pad_axis N y)
      (replicate ?off (replicate N 0) @ map (pad_row N) beam @ replicate b (replicate N 0)) =
      zip (extend_left ?off y) (replicate ?off (replicate N 0)) @
      zip y (map (pad_row N) beam) @
      zip (extend_right (N - length y - ?off) y) (replicate b (replicate N 0))"
    using assms by (simp add: pad_axis_def Let_def length_extend_left)
  then have "moment_y (pad_axis N y)
      (replicate ?off (replicate N 0) @ map (pad_row N) beam @ replicate b (replicate N 0)) =
      sum_list (map ?w (zip y (map (pad_row N) beam)))"
    by (simp add: moment_y_def weighted_zero_rows)
  also have "\<dots> = sum_list (map ?w (zip y beam))"
    by (simp add: zip_map2 comp_def split_def weight_pad_row)
  finally show ?thesis by (simp only: moment_y_def)
qed

lemma padded_shape:
  assumes "grid_shape beam R C" "R \<le> N" "C \<le> N"
  shows "grid_shape
           (replicate (pad_offset N R) (replicate N 0) @ map (pad_row N) beam @
            replicate (N - R - pad_offset N R) (replicate N 0)) N N"
  using assms pad_offset_le [of N R]
  by (auto simp: grid_shape_def list_all_iff length_pad_row)

lemma padded_nth:
  assumes sh: "grid_shape beam R C" and le: "R \<le> N" "C \<le> N" and ij: "i < N" "j < N"
  shows "(replicate (pad_offset N R) (replicate N 0) @ map (pad_row N) beam @
            replicate (N - R - pad_offset N R) (replicate N 0)) ! i ! j =
         (if pad_offset N R \<le> i \<and> i < pad_offset N R + R \<and>
             pad_offset N C \<le> j \<and> j < pad_offset N C + C
          then beam ! (i - pad_offset N R) ! (j - pad_offset N C) else 0)"
proof -
  let ?oy = "pad_offset N R"
  let ?bn = "replicate ?oy (replicate N 0) @ map (pad_row N) beam @
            replicate (N - R - ?oy) (replicate N 0)"
  have len: "length beam = R" using sh by (simp add: grid_shape_def)
  have oy: "?oy \<le> N - R" by (rule pad_offset_le)
  consider "i < ?oy" | "?oy \<le> i" "i < ?oy + R" | "?oy + R \<le> i" by linarith
  then show ?thesis
  proof cases
    case 1
    then have "?bn ! i = replicate N 0" by (simp add: nth_append)
    with 1 ij show ?thesis by simp
  next
    case 2
    then have k: "i - ?oy < R" by linarith
    with 2 have "?bn ! i = pad_row N (beam ! (i - ?oy))"
      by (simp add: nth_append len)
    moreover have "length (beam ! (i - ?oy)) = C"
      using sh k by (rule grid_shape_row)
    ultimately show ?thesis
      using 2 le ij by (simp add: pad_row_nth)
  next
    case 3
    then have "\<not> i < ?oy" "\<not> i - ?oy < R" "i - ?oy - R < N - R - ?oy"
      using ij oy by linarith+
    then have "?bn ! i = replicate N 0" by (simp add: nth_append len)
    with 3 ij show ?thesis by simp
  qed
qed

text \<open>
  Claim C6. For every field on a grid and every target pixel count \<open>N\<close> at least as
  large as both input dimensions, the padded field is an \<open>N \<times> N\<close> array that holds
  the input values unchanged in the centred sub-block and 0 elsewhere; the new axes have
  length \<open>N\<close>, keep the input coordinates at the sub-block, are extended by the same
  number of samples on both sides up to one, and keep the spacing of a uniform input
  axis; and the centre of mass of the field is the same before and after padding.
\<close>

theorem zero_pad_centred:
  assumes sh: "grid_shape beam (length y) (length x)"
    and ne: "x \<noteq> []" "y \<noteq> []"
    and le: "length x \<le> N" "length y \<le> N"
  shows "\<exists>xn yn bn. zero_pad x y beam N = Inr (xn, yn, bn) \<and>
           length xn = N \<and> length yn = N \<and> grid_shape bn N N \<and>
           (\<forall>i<N. \<forall>j<N. bn ! i ! j =
              (if pad_offset N (length y) \<le> i \<and> i < pad_offset N (length y) + length y \<and>
                  pad_offset N (length x) \<le> j \<and> j < pad_offset N (length x) + length x
               then beam ! (i - pad_offset N (length y)) ! (j - pad_offset N (length x))
               else 0)) \<and>
           (\<forall>j<length x. xn ! (pad_offset N (length x) + j) = x ! j) \<and>
           (\<forall>i<length y. yn ! (pad_offset N (length y) + i) = y ! i) \<and>
           (N - length x - pad_offset N (length x) = pad_offset N (length x) \<or>
            N - length x - pad_offset N (length x) = pad_offset N (length x) + 1) \<and>
           (N - length y - pad_offset N (length y) = pad_offset N (length y) \<or>
            N - length y - pad_offset N (length y) = pad_offset N (length y) + 1) \<and>
           (uniform_axis x \<longrightarrow> (\<forall>j. Suc j < N \<longrightarrow> xn ! Suc j - xn ! j = spacing x)) \<and>
           (uniform_axis y \<longrightarrow> (\<forall>i. Suc i < N \<longrightarrow> yn ! Suc i - yn ! i = spacing y)) \<and>
           centre_of_mass xn yn bn = centre_of_mass x y beam"
proof -
  let ?ox = "pad_offset N (length x)"
  let ?oy = "pad_offset N (length y)"
  let ?xn = "pad_axis N x"
  let ?yn = "pad_axis N y"
  let ?bn = "replicate ?oy (replicate N 0) @ map (pad_row N) beam @
             replicate (N - length y - ?oy) (replicate N 0)"
  have len: "length beam = length y" using sh by (simp add: grid_shape_def)
  have rows: "\<forall>row\<in>set beam. length row = length x"
    using sh by (simp add: grid_shape_def list_all_iff)
  have res: "zero_pad x y beam N = Inr (?xn, ?yn, ?bn)"
    using padded_parts [OF le, of beam] by (simp only: len)
  have lx: "length ?xn = N" using ne(1) le(1) by (rule length_pad_axis)
  have ly: "length ?yn = N" using ne(2) le(2) by (rule length_pad_axis)
  have shape: "grid_shape ?bn N N" using sh le(2,1) by (rule padded_shape)
  have block: "\<forall>i<N. \<forall>j<N. ?bn ! i ! j =
      (if ?oy \<le> i \<and> i < ?oy + length y \<and> ?ox \<le> j \<and> j < ?ox + length x
       then beam ! (i - ?oy) ! (j - ?ox) else 0)"
    using padded_nth [OF sh le(2,1)] by blast
  have midx: "\<forall>j<length x. ?xn ! (?ox + j) = x ! j"
    using pad_axis_mid [OF ne(1)] by blast
  have midy: "\<forall>i<length y. ?yn ! (?oy + i) = y ! i"
    using pad_axis_mid [OF ne(2)] by blast
  have ux: "uniform_axis x \<longrightarrow> (\<forall>j. Suc j < N \<longrightarrow> ?xn ! Suc j - ?xn ! j = spacing x)"
    using pad_axis_uniform [OF ne(1) le(1)] by blast
  have uy: "uniform_axis y \<longrightarrow> (\<forall>i. Suc i < N \<longrightarrow> ?yn ! Suc i - ?yn ! i = spacing y)"
    using pad_axis_uniform [OF ne(2) le(2)] by blast
  have tw: "total_weight ?bn = total_weight beam" by (rule total_weight_padded)
  have mx: "moment_x ?xn ?bn = moment_x x beam" using ne(1) rows by (rule moment_x_padded)
  have my: "moment_y ?yn ?bn = moment_y y beam" using ne(2) len by (rule moment_y_padded)
  have com: "centre_of_mass ?xn ?yn ?bn = centre_of_mass x y beam"
    by (simp only: centre_of_mass_def tw mx my)
  note sym = pad_offset_symmetric [of N "length x"] pad_offset_symmetric [of N "length y"]
  show ?thesis
    by (intro exI conjI) (rule res lx ly shape block midx midy sym ux uy com)+
qed

theorem zero_pad_centred_witness:
  "zero_pad [0, 1] [0, 1] [[1, 2], [3, 4]] 5 =
     Inr ([-1, 0, 1, 2, 3], [-1, 0, 1, 2, 3],
          [[0, 0, 0, 0, 0], [0, 1, 2, 0, 0], [0, 3, 4, 0, 0], [0, 0, 0, 0, 0], [0, 0, 0, 0, 0]]) \<and>
   centre_of_mass [0, 1] [0, 1] [[1, 2], [3, 4]] = Some (3 / 5, 7 / 10) \<and>
   centre_of_mass [-1, 0, 1, 2, 3] [-1, 0, 1, 2, 3]
     [[0, 0, 0, 0, 0], [0, 1, 2, 0, 0], [0, 3, 4, 0, 0], [0, 0, 0, 0, 0], [0, 0, 0, 0, 0]] =
     Some (3 / 5, 7 / 10)"
proof -
  have h: "grid_shape [[1, 2], [3, 4 :: complex]] (length [0, 1 :: real]) (length [0, 1 :: real])"
    "[0, 1 :: real] \<noteq> []" "length [0, 1 :: real] \<le> 5"
    by (simp_all add: grid_shape_def)
  have v: "zero_pad [0, 1] [0, 1] [[1, 2], [3, 4]] 5 =
     Inr ([-1, 0, 1, 2, 3], [-1, 0, 1, 2, 3],
          [[0, 0, 0, 0, 0], [0, 1, 2, 0, 0], [0, 3, 4, 0, 0], [0, 0, 0, 0, 0], [0, 0, 0, 0, 0]])"
    by code_simp
  have c: "centre_of_mass [0, 1] [0, 1] [[1, 2], [3, 4]] = Some (3 / 5, 7 / 10)"
    by (simp add: centre_of_mass_def total_weight_def moment_x_def moment_y_def)
  from zero_pad_centred [OF h(1) h(2) h(2) h(3) h(3)] obtain xn yn bn where
    "zero_pad [0, 1] [0, 1] [[1, 2], [3, 4]] 5 = Inr (xn, yn, bn)"
    "centre_of_mass xn yn bn = centre_of_mass [0, 1] [0, 1] [[1, 2], [3, 4]]"
    by blast
  with v c show ?thesis by simp
qed

text \<open>
  Claim C7. A target pixel count smaller than an input dimension makes the Zero-Padder
  fail with UndersizedPadding.
\<close>

theorem zero_pad_undersized:
  assumes "N < length x \<or> N < length y"
  shows "zero_pad x y beam N = Inl UndersizedPadding"
  using assms by (simp add: zero_pad_def)

theorem zero_pad_undersized_witness:
  "(1::nat) < length [0, 1 :: real] \<and>
   zero_pad [0, 1] [0, 1] [[1, 2], [3, 4]] 1 = Inl UndersizedPadding"
proof -
  have h: "(1::nat) < length [0, 1 :: real] \<or> (1::nat) < length [0, 1 :: real]" by simp
  from zero_pad_undersized [OF h] show ?thesis by simp
qed

end
